theory Spec2Isabelle
  imports Complex_Main "HOL-Library.Multiset" "HOL-Library.Product_Lexorder"
begin

section \<open>The Graph Store\<close>

text \<open>
  The page keeps its nodes and edges in a graphology \<open>Graph\<close>. A node is a string key with
  an attribute object; an attribute object is a finite map from attribute names to values.
  A number held in an attribute is a finite double, kept as the real that is its value.
  The arithmetic the stage click does on these numbers is double-precision arithmetic,
  with rounding, overflow to infinity and \<open>NaN\<close>; it is defined with the stage click
  below. The attributes \<open>x\<close> and \<open>y\<close> hold numbers wherever the page writes them.
\<close>

datatype attr_value = Num real | Str string | Bool bool

type_synonym attributes = "string \<rightharpoonup> attr_value"

type_synonym edge = "string \<times> string \<times> attributes"

record graph_store =
  node_entries :: "(string \<times> attributes) list"
  edge_entries :: "edge list"

datatype error = NotFoundGraphError | UsageGraphError

text \<open>
  The Graph Store (the graphology library) is an external collaborator whose code is not
  part of the repository; the specification lists the operations the page uses of it. Node
  entries are kept in insertion order, which is the order \<open>graph.nodes()\<close> lists them in.
  The library validates before it mutates, so an operation that throws leaves the store
  as it was.
\<close>

text \<open>Modelled from the spec: the Graph Store's constructor \<open>new Graph()\<close>, an empty store.\<close>

definition Graph :: graph_store where
  "Graph = \<lparr>node_entries = [], edge_entries = []\<rparr>"

text \<open>Modelled from the spec: the Graph Store's "list node ids", \<open>graph.nodes()\<close>.\<close>

definition nodes :: "graph_store \<Rightarrow> string list" where
  "nodes g = map fst (node_entries g)"

text \<open>Modelled from the spec: the Graph Store's "node count", \<open>graph.order\<close>.\<close>

definition graph_order :: "graph_store \<Rightarrow> nat" where
  "graph_order g = length (node_entries g)"

text \<open>
  Modelled from the spec: the Graph Store's two membership tests, for a node key and for a
  directed edge between two keys, which its other operations validate with.
\<close>

definition hasNode :: "graph_store \<Rightarrow> string \<Rightarrow> bool" where
  "hasNode g n = (n \<in> set (nodes g))"

definition hasEdge :: "graph_store \<Rightarrow> string \<Rightarrow> string \<Rightarrow> bool" where
  "hasEdge g source target =
     list_ex (\<lambda>e. fst e = source \<and> fst (snd e) = target) (edge_entries g)"

text \<open>
  Modelled from the spec: the Graph Store's "add node(id, attributes)". A key that is
  already a node is a \<open>UsageGraphError\<close>.
\<close>

definition addNode :: "graph_store \<Rightarrow> string \<Rightarrow> attributes \<Rightarrow> error + graph_store" where
  "addNode g n attrs =
     (if hasNode g n then Inl UsageGraphError
      else Inr (g\<lparr>node_entries := node_entries g @ [(n, attrs)]\<rparr>))"

text \<open>
  Modelled from the spec: the Graph Store's "add edge(sourceId, targetId, attributes)". An
  end that is no node is a \<open>NotFoundGraphError\<close>; the store is not a multigraph, so a
  second edge from the same source to the same target is a \<open>UsageGraphError\<close>. An edge
  from a node to itself is allowed.
\<close>

definition addEdge ::
  "graph_store \<Rightarrow> string \<Rightarrow> string \<Rightarrow> attributes \<Rightarrow> error + graph_store" where
  "addEdge g source target attrs =
     (if \<not> hasNode g source then Inl NotFoundGraphError
      else if \<not> hasNode g target then Inl NotFoundGraphError
      else if hasEdge g source target then Inl UsageGraphError
      else Inr (g\<lparr>edge_entries := edge_entries g @ [(source, target, attrs)]\<rparr>))"

text \<open>
  Modelled from the spec: the Graph Store's "get node attributes(id)". A key that is no
  node is a \<open>NotFoundGraphError\<close>.
\<close>

definition getNodeAttributes :: "graph_store \<Rightarrow> string \<Rightarrow> error + attributes" where
  "getNodeAttributes g n =
     (case map_of (node_entries g) n of
        None \<Rightarrow> Inl NotFoundGraphError
      | Some attrs \<Rightarrow> Inr attrs)"

text \<open>
  Modelled from the spec: the Graph Store's "set node attribute(id, key, value)" and
  "remove node attribute(id, key)". Either changes the attribute object of the node with
  that key and nothing else; a key that is no node is a \<open>NotFoundGraphError\<close>.
\<close>

definition update_entry ::
  "string \<Rightarrow> (attributes \<Rightarrow> attributes) \<Rightarrow> string \<times> attributes \<Rightarrow> string \<times> attributes" where
  "update_entry n f entry = (if fst entry = n then (fst entry, f (snd entry)) else entry)"

definition setNodeAttribute ::
  "graph_store \<Rightarrow> string \<Rightarrow> string \<Rightarrow> attr_value \<Rightarrow> error + graph_store" where
  "setNodeAttribute g n name v =
     (if \<not> hasNode g n then Inl NotFoundGraphError
      else Inr (g\<lparr>node_entries :=
                   map (update_entry n (\<lambda>attrs. attrs(name \<mapsto> v))) (node_entries g)\<rparr>))"

definition removeNodeAttribute ::
  "graph_store \<Rightarrow> string \<Rightarrow> string \<Rightarrow> error + graph_store" where
  "removeNodeAttribute g n name =
     (if \<not> hasNode g n then Inl NotFoundGraphError
      else Inr (g\<lparr>node_entries :=
                   map (update_entry n (\<lambda>attrs. attrs(name := None))) (node_entries g)\<rparr>))"

text \<open>Sequencing of store operations at the top level of the script: the first throw ends it.\<close>

definition and_then ::
  "error + graph_store \<Rightarrow> (graph_store \<Rightarrow> error + graph_store) \<Rightarrow> error + graph_store" where
  "and_then r f = (case r of Inl e \<Rightarrow> Inl e | Inr g \<Rightarrow> f g)"

section \<open>The seed data\<close>

definition RED :: string where "RED = ''#FA4F40''"
definition BLUE :: string where "BLUE = ''#727EE0''"
definition GREEN :: string where "GREEN = ''#5DB346''"

definition image_node :: "string \<Rightarrow> string \<Rightarrow> string \<Rightarrow> attributes" where
  "image_node lbl img col =
     [''size'' \<mapsto> Num 15, ''label'' \<mapsto> Str lbl, ''type'' \<mapsto> Str ''image'',
      ''image'' \<mapsto> Str img, ''color'' \<mapsto> Str col]"

definition border_node :: "string \<Rightarrow> string \<Rightarrow> attributes" where
  "border_node lbl col =
     [''size'' \<mapsto> Num 7, ''label'' \<mapsto> Str lbl, ''type'' \<mapsto> Str ''border'',
      ''color'' \<mapsto> Str col]"

definition edge_attrs :: "string \<Rightarrow> string \<Rightarrow> attributes" where
  "edge_attrs ty lbl = [''type'' \<mapsto> Str ty, ''label'' \<mapsto> Str lbl, ''size'' \<mapsto> Num 5]"

definition seed_nodes :: "error + graph_store" where
  "seed_nodes =
     and_then (and_then (and_then (and_then (and_then (and_then (and_then
       (addNode Graph ''John'' (image_node ''John'' ''./user.svg'' RED))
       (\<lambda>g. addNode g ''Mary'' (image_node ''Mary'' ''./user.svg'' RED)))
       (\<lambda>g. addNode g ''Suzan'' (image_node ''Suzan'' ''./user.svg'' RED)))
       (\<lambda>g. addNode g ''Nantes'' (image_node ''Nantes'' ''./city.svg'' BLUE)))
       (\<lambda>g. addNode g ''New-York'' (image_node ''New-York'' ''./city.svg'' BLUE)))
       (\<lambda>g. addNode g ''Sushis'' (border_node ''Sushis'' GREEN)))
       (\<lambda>g. addNode g ''Falafels'' (border_node ''Falafels'' GREEN)))
       (\<lambda>g. addNode g ''Kouign Amann'' (border_node ''Kouign Amann'' GREEN))"

definition seed_edges :: "graph_store \<Rightarrow> error + graph_store" where
  "seed_edges g0 =
     and_then (and_then (and_then (and_then (and_then (and_then (and_then
       (addEdge g0 ''John'' ''Mary'' (edge_attrs ''line'' ''works with''))
       (\<lambda>g. addEdge g ''Mary'' ''Suzan'' (edge_attrs ''line'' ''works with'')))
       (\<lambda>g. addEdge g ''Mary'' ''Nantes'' (edge_attrs ''arrow'' ''lives in'')))
       (\<lambda>g. addEdge g ''John'' ''New-York'' (edge_attrs ''arrow'' ''surfs with'')))
       (\<lambda>g. addEdge g ''Suzan'' ''New-York'' (edge_attrs ''arrow'' ''lives in'')))
       (\<lambda>g. addEdge g ''John'' ''Falafels'' (edge_attrs ''arrow'' ''eats'')))
       (\<lambda>g. addEdge g ''Mary'' ''Sushis'' (edge_attrs ''arrow'' ''eats'')))
       (\<lambda>g. addEdge g ''Suzan'' ''Kouign Amann'' (edge_attrs ''arrow'' ''eats''))"

text \<open>
  \<open>graph.nodes().forEach((node, i) => ...)\<close>: the list of keys is taken once, before the
  loop, and each node is placed on a circle of radius 100 at the angle of its index. The
  coordinates are the exact values of the products. The engine stores the doubles that
  its \<open>Math.cos\<close> and \<open>Math.sin\<close> give for the rounded angle, whose last bit the
  language leaves to the engine; nothing that is proved below reads a seed coordinate.
\<close>

fun arrange :: "graph_store \<Rightarrow> (nat \<times> string) list \<Rightarrow> error + graph_store" where
  "arrange g [] = Inr g"
| "arrange g ((i, node) # rest) =
     (let angle = (real i * 2 * pi) / real (graph_order g) in
        and_then (and_then
          (setNodeAttribute g node ''x'' (Num (100 * cos angle)))
          (\<lambda>g1. setNodeAttribute g1 node ''y'' (Num (100 * sin angle))))
          (\<lambda>g2. arrange g2 rest))"

definition seed_graph :: "error + graph_store" where
  "seed_graph =
     and_then (and_then seed_nodes seed_edges) (\<lambda>g. arrange g (enumerate 0 (nodes g)))"

section \<open>The Renderer and the page state\<close>

type_synonym point = "real \<times> real"

type_synonym bbox = "(real \<times> real) \<times> (real \<times> real)"

text \<open>
  Modelled from the spec: the Renderer (the sigma library) is an external collaborator
  whose code is not part of the repository. The handlers use three things of it:
  \<open>viewportToGraph\<close>, the conversion of screen coordinates to graph coordinates;
  \<open>getBBox\<close>, the bounding box it computes from the graph it draws; and the custom
  bounding box it stores, \<open>null\<close> until one is set (\<open>getCustomBBox\<close>, \<open>setCustomBBox\<close>).
  The two functions are parameters: they are fields of the renderer, any functions at
  all, and no handler assigns them.
\<close>

record renderer =
  viewportToGraph :: "point \<Rightarrow> point"
  getBBox :: "graph_store \<Rightarrow> bbox"
  customBBox :: "bbox option"

definition Sigma :: "(point \<Rightarrow> point) \<Rightarrow> (graph_store \<Rightarrow> bbox) \<Rightarrow> renderer" where
  "Sigma vtg gbb = \<lparr>viewportToGraph = vtg, getBBox = gbb, customBBox = None\<rparr>"

definition setCustomBBox :: "renderer \<Rightarrow> bbox \<Rightarrow> renderer" where
  "setCustomBBox r b = r\<lparr>customBBox := Some b\<rparr>"

record state =
  graph :: graph_store
  renderer :: renderer
  draggedNode :: "string option"
  isDragging :: bool

text \<open>What a handler leaves behind: it returns, or it throws after the updates it made.\<close>

datatype outcome = Returned state | Threw error state

fun final :: "outcome \<Rightarrow> state" where
  "final (Returned s) = s"
| "final (Threw e s) = s"

fun thrown :: "outcome \<Rightarrow> error option" where
  "thrown (Returned s) = None"
| "thrown (Threw e s) = Some e"

text \<open>
  The page after the script has run, or the error that stopped the script. The force
  layout the script starts moves \<open>x\<close> and \<open>y\<close> of the nodes between the events; it is
  not part of the state, and what is proved of a sequence of events is proved of the
  handlers alone.
\<close>

definition initial :: "(point \<Rightarrow> point) \<Rightarrow> (graph_store \<Rightarrow> bbox) \<Rightarrow> error + state" where
  "initial vtg gbb =
     (case seed_graph of
        Inl e \<Rightarrow> Inl e
      | Inr g \<Rightarrow> Inr \<lparr>graph = g, renderer = Sigma vtg gbb,
                      draggedNode = None, isDragging = False\<rparr>)"

section \<open>Drag and drop\<close>

text \<open>\<open>!draggedNode\<close> on a \<open>string | null\<close>: \<open>null\<close> and the empty string are falsy.\<close>

fun falsy :: "string option \<Rightarrow> bool" where
  "falsy None = True"
| "falsy (Some n) = (n = [])"

text \<open>The handler of \<open>downNode\<close>, a press on node \<open>e.node\<close>.\<close>

definition downNode :: "state \<Rightarrow> string \<Rightarrow> outcome" where
  "downNode s node =
     (let s1 = s\<lparr>isDragging := True, draggedNode := Some node\<rparr> in
        case setNodeAttribute (graph s1) node ''highlighted'' (Bool True) of
          Inl e \<Rightarrow> Threw e s1
        | Inr g \<Rightarrow> Returned (s1\<lparr>graph := g\<rparr>))"

text \<open>
  The handler of \<open>mousemovebody\<close>, a pointer move to screen coordinates \<open>e\<close>. The three
  calls that end the handler (\<open>preventSigmaDefault\<close>, \<open>preventDefault\<close>,
  \<open>stopPropagation\<close>) act on the camera and on the browser event, which the state does
  not hold.
\<close>

definition mousemovebody :: "state \<Rightarrow> point \<Rightarrow> outcome" where
  "mousemovebody s e =
     (if \<not> isDragging s \<or> falsy (draggedNode s) then Returned s
      else case draggedNode s of
        None \<Rightarrow> Returned s
      | Some node \<Rightarrow>
          (let pos = viewportToGraph (renderer s) e in
             case setNodeAttribute (graph s) node ''x'' (Num (fst pos)) of
               Inl err \<Rightarrow> Threw err s
             | Inr g1 \<Rightarrow>
                 (case setNodeAttribute g1 node ''y'' (Num (snd pos)) of
                    Inl err \<Rightarrow> Threw err (s\<lparr>graph := g1\<rparr>)
                  | Inr g2 \<Rightarrow> Returned (s\<lparr>graph := g2\<rparr>))))"

text \<open>The handler of \<open>mouseup\<close>, a pointer release.\<close>

definition mouseup :: "state \<Rightarrow> outcome" where
  "mouseup s =
     (case (if falsy (draggedNode s) then None else draggedNode s) of
        None \<Rightarrow> Returned (s\<lparr>isDragging := False, draggedNode := None\<rparr>)
      | Some node \<Rightarrow>
          (case removeNodeAttribute (graph s) node ''highlighted'' of
             Inl e \<Rightarrow> Threw e s
           | Inr g \<Rightarrow> Returned (s\<lparr>graph := g, isDragging := False, draggedNode := None\<rparr>)))"

text \<open>The handler of \<open>mousedown\<close>, a pointer press anywhere.\<close>

definition mousedown :: "state \<Rightarrow> outcome" where
  "mousedown s =
     (if customBBox (renderer s) = None
      then Returned (s\<lparr>renderer :=
                         setCustomBBox (renderer s) (getBBox (renderer s) (graph s))\<rparr>)
      else Returned s)"

section \<open>Creating a node by a click on the stage\<close>

subsection \<open>JavaScript numbers\<close>

text \<open>
  A JavaScript number is an IEEE 754 double: a finite value, one of the two infinities,
  or \<open>NaN\<close>. A finite value is kept as the real it stands for; the two zeros are not told
  apart, which no comparison and no sum or difference below can observe.
\<close>

datatype number = Finite real | PlusInfinity | MinusInfinity | NaN

text \<open>
  Rounding a real to the nearest double, ties to the even neighbour. With \<open>E\<close> the
  binary exponent of \<open>v\<close>, the largest integer with \<open>2 ^ E \<le> |v|\<close>, the doubles next to
  \<open>v\<close> are \<open>2 ^ (E - 52)\<close> apart, and \<open>2 ^ (- 1074)\<close> apart where \<open>E\<close> is below \<open>- 1022\<close>
  (gradual underflow); \<open>quantum\<close> is that spacing. A rounded value of magnitude
  \<open>2 ^ 1024\<close> or more is an infinity.
\<close>

definition round_even :: "real \<Rightarrow> int" where
  "round_even m =
     (let f = \<lfloor>m\<rfloor>; d = m - of_int f
      in if d < 1 / 2 then f else if 1 / 2 < d then f + 1 else if even f then f else f + 1)"

definition quantum :: "real \<Rightarrow> real" where
  "quantum v = 2 powr of_int (max \<lfloor>log 2 \<bar>v\<bar>\<rfloor> (- 1022) - 52)"

definition round_double :: "real \<Rightarrow> number" where
  "round_double v =
     (if v = 0 then Finite 0
      else let r = quantum v * of_int (round_even (v / quantum v))
           in if 2 ^ 1024 \<le> r then PlusInfinity
              else if r \<le> - (2 ^ 1024) then MinusInfinity
              else Finite r)"

text \<open>The difference and the sum of two numbers, as the language defines \<open>-\<close> and \<open>+\<close>.\<close>

fun number_sub :: "number \<Rightarrow> number \<Rightarrow> number" where
  "number_sub (Finite a) (Finite b) = round_double (a - b)"
| "number_sub NaN b = NaN"
| "number_sub a NaN = NaN"
| "number_sub PlusInfinity PlusInfinity = NaN"
| "number_sub MinusInfinity MinusInfinity = NaN"
| "number_sub PlusInfinity b = PlusInfinity"
| "number_sub MinusInfinity b = MinusInfinity"
| "number_sub (Finite a) PlusInfinity = MinusInfinity"
| "number_sub (Finite a) MinusInfinity = PlusInfinity"

fun number_add :: "number \<Rightarrow> number \<Rightarrow> number" where
  "number_add (Finite a) (Finite b) = round_double (a + b)"
| "number_add NaN b = NaN"
| "number_add a NaN = NaN"
| "number_add PlusInfinity MinusInfinity = NaN"
| "number_add MinusInfinity PlusInfinity = NaN"
| "number_add PlusInfinity b = PlusInfinity"
| "number_add MinusInfinity b = MinusInfinity"
| "number_add (Finite a) PlusInfinity = PlusInfinity"
| "number_add (Finite a) MinusInfinity = MinusInfinity"

text \<open>
  \<open>Math.pow(v, 2)\<close>. The language leaves the last bit of \<open>Math.pow\<close> to the engine; it is
  taken to be the square rounded to the nearest double.
\<close>

fun number_square :: "number \<Rightarrow> number" where
  "number_square (Finite a) = round_double (a * a)"
| "number_square PlusInfinity = PlusInfinity"
| "number_square MinusInfinity = PlusInfinity"
| "number_square NaN = NaN"

text \<open>
  Whether a comparator's result sends its first argument behind its second: the result is
  greater than zero. A \<open>NaN\<close> counts as \<open>+0\<close>.
\<close>

fun positive :: "number \<Rightarrow> bool" where
  "positive (Finite a) = (0 < a)"
| "positive PlusInfinity = True"
| "positive MinusInfinity = False"
| "positive NaN = False"

subsection \<open>The handler\<close>

text \<open>Reading an attribute as a number: \<open>NaN\<close> where it is absent or holds no number.\<close>

definition number_attr :: "attributes \<Rightarrow> string \<Rightarrow> number" where
  "number_attr attrs name = (case attrs name of Some (Num r) \<Rightarrow> Finite r | _ \<Rightarrow> NaN)"

text \<open>\<open>Math.pow(node.x - attrs.x, 2) + Math.pow(node.y - attrs.y, 2)\<close>\<close>

definition distance :: "attributes \<Rightarrow> attributes \<Rightarrow> number" where
  "distance node attrs =
     number_add
       (number_square (number_sub (number_attr node ''x'') (number_attr attrs ''x'')))
       (number_square (number_sub (number_attr node ''y'') (number_attr attrs ''y'')))"

text \<open>The callback of \<open>graph.nodes().map\<close>, applied to the keys from left to right.\<close>

fun map_distance ::
  "graph_store \<Rightarrow> attributes \<Rightarrow> string list \<Rightarrow> error + (string \<times> number) list" where
  "map_distance g node [] = Inr []"
| "map_distance g node (nodeId # rest) =
     (case getNodeAttributes g nodeId of
        Inl e \<Rightarrow> Inl e
      | Inr attrs \<Rightarrow>
          (case map_distance g node rest of
             Inl e \<Rightarrow> Inl e
           | Inr ds \<Rightarrow> Inr ((nodeId, distance node attrs) # ds)))"

text \<open>
  \<open>.sort((a, b) => a.distance - b.distance)\<close>. The comparator's result is read as the
  language defines it: \<open>a\<close> goes after \<open>b\<close> when the result is greater than zero, and a
  \<open>NaN\<close> counts as \<open>+0\<close>. The sort is stable; it is written as the insertion sort from
  the right. Where no distance is \<open>NaN\<close> the comparator is consistent and every stable
  sort gives this result. Where some distance is \<open>NaN\<close> the language leaves the order to
  the implementation; what is proved about the order below is proved for stores in which
  every node has a position, where no distance is \<open>NaN\<close>.
\<close>

definition compare_distance :: "string \<times> number \<Rightarrow> string \<times> number \<Rightarrow> number" where
  "compare_distance a b = number_sub (snd a) (snd b)"

fun insert_by :: "('a \<Rightarrow> 'a \<Rightarrow> number) \<Rightarrow> 'a \<Rightarrow> 'a list \<Rightarrow> 'a list" where
  "insert_by cmp a [] = [a]"
| "insert_by cmp a (b # bs) =
     (if positive (cmp a b) then b # insert_by cmp a bs else a # b # bs)"

definition sort_by :: "('a \<Rightarrow> 'a \<Rightarrow> number) \<Rightarrow> 'a list \<Rightarrow> 'a list" where
  "sort_by cmp xs = foldr (insert_by cmp) xs []"

definition closestNodes ::
  "graph_store \<Rightarrow> attributes \<Rightarrow> error + (string \<times> number) list" where
  "closestNodes g node =
     (case map_distance g node (nodes g) of
        Inl e \<Rightarrow> Inl e
      | Inr ds \<Rightarrow> Inr (take 2 (sort_by compare_distance ds)))"

text \<open>\<open>closestNodes.forEach((e) => graph.addEdge(id, e.nodeId))\<close>\<close>

fun addEdges ::
  "graph_store \<Rightarrow> string \<Rightarrow> (string \<times> number) list \<Rightarrow> graph_store \<times> error option" where
  "addEdges g ident [] = (g, None)"
| "addEdges g ident (e # es) =
     (case addEdge g ident (fst e) Map.empty of
        Inl err \<Rightarrow> (g, Some err)
      | Inr g1 \<Rightarrow> addEdges g1 ident es)"

text \<open>
  The handler takes the click's screen coordinates; \<open>ident\<close> is what \<open>uuid()\<close> returned
  and \<open>colour\<close> is what \<open>chroma.random().hex()\<close> returned in this call.
\<close>

definition new_node :: "point \<Rightarrow> string \<Rightarrow> attributes" where
  "new_node coordForGraph colour =
     [''x'' \<mapsto> Num (fst coordForGraph), ''y'' \<mapsto> Num (snd coordForGraph),
      ''size'' \<mapsto> Num 10, ''color'' \<mapsto> Str colour]"

definition clickStage :: "state \<Rightarrow> point \<Rightarrow> string \<Rightarrow> string \<Rightarrow> outcome" where
  "clickStage s event ident colour =
     (let coordForGraph = viewportToGraph (renderer s) event;
          node = new_node coordForGraph colour
      in case closestNodes (graph s) node of
           Inl e \<Rightarrow> Threw e s
         | Inr closest \<Rightarrow>
             (case addNode (graph s) ident node of
                Inl e \<Rightarrow> Threw e s
              | Inr g1 \<Rightarrow>
                  (case addEdges g1 ident closest of
                     (g2, None) \<Rightarrow> Returned (s\<lparr>graph := g2\<rparr>)
                   | (g2, Some e) \<Rightarrow> Threw e (s\<lparr>graph := g2\<rparr>))))"

section \<open>Events\<close>

datatype event =
    DownNode string
  | MouseMoveBody point
  | MouseUp
  | MouseDown
  | ClickStage point string string

fun handle :: "state \<Rightarrow> event \<Rightarrow> outcome" where
  "handle s (DownNode node) = downNode s node"
| "handle s (MouseMoveBody e) = mousemovebody s e"
| "handle s MouseUp = mouseup s"
| "handle s MouseDown = mousedown s"
| "handle s (ClickStage e ident colour) = clickStage s e ident colour"

definition step :: "state \<Rightarrow> event \<Rightarrow> state" where
  "step s ev = final (handle s ev)"

definition run :: "state \<Rightarrow> event list \<Rightarrow> state" where
  "run s evs = foldl step s evs"

section \<open>Properties of a store\<close>

text \<open>
  What the library keeps true of every \<open>Graph\<close> it hands out: the node keys are pairwise
  different, and both ends of every edge are nodes of the graph.
\<close>

definition edges_ok :: "graph_store \<Rightarrow> bool" where
  "edges_ok g =
     list_all (\<lambda>e. hasNode g (fst e) \<and> hasNode g (fst (snd e))) (edge_entries g)"

definition consistent :: "graph_store \<Rightarrow> bool" where
  "consistent g = (distinct (nodes g) \<and> edges_ok g)"

text \<open>The value of one attribute of one node, if the node is there and has it.\<close>

definition node_attribute :: "graph_store \<Rightarrow> string \<Rightarrow> string \<Rightarrow> attr_value option" where
  "node_attribute g n name =
     (case map_of (node_entries g) n of None \<Rightarrow> None | Some attrs \<Rightarrow> attrs name)"

section \<open>Highlights and well-behaved event sequences\<close>

text \<open>The nodes that carry the \<open>highlighted\<close> attribute, in the order of the store.\<close>

definition highlighted_nodes :: "graph_store \<Rightarrow> string list" where
  "highlighted_nodes g =
     map fst (filter (\<lambda>entry. snd entry ''highlighted'' \<noteq> None) (node_entries g))"

text \<open>
  At most one highlighted node while a drag is active, none while no drag is active.
\<close>

definition highlight_invariant :: "state \<Rightarrow> bool" where
  "highlight_invariant s =
     (if isDragging s then length (highlighted_nodes (graph s)) \<le> 1
      else highlighted_nodes (graph s) = [])"

text \<open>
  \<open>uuid()\<close> returns a string of 36 characters; all that is used of it is that the
  string is not empty.
\<close>

fun uuid_event :: "event \<Rightarrow> bool" where
  "uuid_event (ClickStage e ident colour) = (ident \<noteq> [])"
| "uuid_event ev = True"

text \<open>An event sequence in which every node press arrives while no drag is active.\<close>

fun press_when_idle :: "state \<Rightarrow> event list \<Rightarrow> bool" where
  "press_when_idle s [] = True"
| "press_when_idle s (ev # evs) =
     ((case ev of DownNode node \<Rightarrow> \<not> isDragging s | _ \<Rightarrow> True) \<and>
      press_when_idle (step s ev) evs)"

text \<open>What every state of a well-behaved run satisfies.\<close>

definition drag_invariant :: "state \<Rightarrow> bool" where
  "drag_invariant s =
     (distinct (nodes (graph s)) \<and> [] \<notin> set (nodes (graph s)) \<and>
      (\<forall>n \<in> set (highlighted_nodes (graph s)). isDragging s \<and> draggedNode s = Some n))"

text \<open>One whole drag of node \<open>n\<close>: the press, the moves, the release.\<close>

definition drag :: "string \<Rightarrow> point list \<Rightarrow> event list" where
  "drag n ms = DownNode n # map MouseMoveBody ms @ [MouseUp]"

section \<open>The two nearest nodes, as the specification words it\<close>


text \<open>The value of an attribute that holds a number.\<close>

definition num_attr :: "attributes \<Rightarrow> string \<Rightarrow> real option" where
  "num_attr attrs name = (case attrs name of Some (Num r) \<Rightarrow> Some r | _ \<Rightarrow> None)"

definition entry_position :: "string \<times> attributes \<Rightarrow> (string \<times> point) option" where
  "entry_position entry =
     (case (num_attr (snd entry) ''x'', num_attr (snd entry) ''y'') of
        (Some px, Some py) \<Rightarrow> Some (fst entry, (px, py))
      | _ \<Rightarrow> None)"

definition positions :: "graph_store \<Rightarrow> (string \<times> point) list option" where
  "positions g = those (map entry_position (node_entries g))"





section \<open>Facts about the Graph Store\<close>

lemma fst_update_entry [simp]: "fst (update_entry n f entry) = fst entry"
  by (simp add: update_entry_def)

lemma map_fst_update_entry [simp]: "map fst (map (update_entry n f) es) = map fst es"
  by (induction es) simp_all

lemma map_of_update_entry:
  "map_of (map (update_entry n f) es) k =
     (if k = n then map_option f (map_of es k) else map_of es k)"
  by (induction es) (auto simp: update_entry_def)

lemma setNodeAttribute_Inr:
  "setNodeAttribute g n name v = Inr g' \<Longrightarrow>
     hasNode g n \<and> nodes g' = nodes g \<and> edge_entries g' = edge_entries g \<and>
     node_entries g' = map (update_entry n (\<lambda>attrs. attrs(name \<mapsto> v))) (node_entries g)"
  by (auto simp: setNodeAttribute_def nodes_def split: if_splits)

lemma removeNodeAttribute_Inr:
  "removeNodeAttribute g n name = Inr g' \<Longrightarrow>
     hasNode g n \<and> nodes g' = nodes g \<and> edge_entries g' = edge_entries g \<and>
     node_entries g' = map (update_entry n (\<lambda>attrs. attrs(name := None))) (node_entries g)"
  by (auto simp: removeNodeAttribute_def nodes_def split: if_splits)

lemma addNode_Inr:
  "addNode g n attrs = Inr g' \<Longrightarrow>
     \<not> hasNode g n \<and> node_entries g' = node_entries g @ [(n, attrs)] \<and>
     edge_entries g' = edge_entries g"
  by (auto simp: addNode_def split: if_splits)

lemma addEdge_Inr:
  "addEdge g source target attrs = Inr g' \<Longrightarrow>
     hasNode g source \<and> hasNode g target \<and> node_entries g' = node_entries g \<and>
     edge_entries g' = edge_entries g @ [(source, target, attrs)]"
  by (auto simp: addEdge_def split: if_splits)

section \<open>Facts about the seed\<close>

lemma seed_nodes_eq:
  "seed_nodes = Inr \<lparr>node_entries =
     [(''John'', image_node ''John'' ''./user.svg'' RED),
      (''Mary'', image_node ''Mary'' ''./user.svg'' RED),
      (''Suzan'', image_node ''Suzan'' ''./user.svg'' RED),
      (''Nantes'', image_node ''Nantes'' ''./city.svg'' BLUE),
      (''New-York'', image_node ''New-York'' ''./city.svg'' BLUE),
      (''Sushis'', border_node ''Sushis'' GREEN),
      (''Falafels'', border_node ''Falafels'' GREEN),
      (''Kouign Amann'', border_node ''Kouign Amann'' GREEN)], edge_entries = []\<rparr>"
  by (simp add: seed_nodes_def and_then_def addNode_def hasNode_def nodes_def Graph_def)

lemma seed_graph_eq:
  "seed_graph = Inr \<lparr>node_entries =
     [(''John'', (image_node ''John'' ''./user.svg'' RED)
         (''x'' \<mapsto> Num 100, ''y'' \<mapsto> Num 0)),
      (''Mary'', (image_node ''Mary'' ''./user.svg'' RED)
         (''x'' \<mapsto> Num (100 * cos (pi / 4)), ''y'' \<mapsto> Num (100 * sin (pi / 4)))),
      (''Suzan'', (image_node ''Suzan'' ''./user.svg'' RED)
         (''x'' \<mapsto> Num 0, ''y'' \<mapsto> Num 100)),
      (''Nantes'', (image_node ''Nantes'' ''./city.svg'' BLUE)
         (''x'' \<mapsto> Num (100 * cos (3 * pi / 4)), ''y'' \<mapsto> Num (100 * sin (3 * pi / 4)))),
      (''New-York'', (image_node ''New-York'' ''./city.svg'' BLUE)
         (''x'' \<mapsto> Num (- 100), ''y'' \<mapsto> Num 0)),
      (''Sushis'', (border_node ''Sushis'' GREEN)
         (''x'' \<mapsto> Num (100 * cos (5 * pi / 4)), ''y'' \<mapsto> Num (100 * sin (5 * pi / 4)))),
      (''Falafels'', (border_node ''Falafels'' GREEN)
         (''x'' \<mapsto> Num (100 * cos (3 * pi / 2)), ''y'' \<mapsto> Num (100 * sin (3 * pi / 2)))),
      (''Kouign Amann'', (border_node ''Kouign Amann'' GREEN)
         (''x'' \<mapsto> Num (100 * cos (7 * pi / 4)), ''y'' \<mapsto> Num (100 * sin (7 * pi / 4))))],
     edge_entries =
     [(''John'', ''Mary'', edge_attrs ''line'' ''works with''),
      (''Mary'', ''Suzan'', edge_attrs ''line'' ''works with''),
      (''Mary'', ''Nantes'', edge_attrs ''arrow'' ''lives in''),
      (''John'', ''New-York'', edge_attrs ''arrow'' ''surfs with''),
      (''Suzan'', ''New-York'', edge_attrs ''arrow'' ''lives in''),
      (''John'', ''Falafels'', edge_attrs ''arrow'' ''eats''),
      (''Mary'', ''Sushis'', edge_attrs ''arrow'' ''eats''),
      (''Suzan'', ''Kouign Amann'', edge_attrs ''arrow'' ''eats'')]\<rparr>"
  by (simp add: seed_graph_def seed_nodes_eq seed_edges_def and_then_def addEdge_def
      hasNode_def hasEdge_def nodes_def graph_order_def setNodeAttribute_def
      update_entry_def enumerate_eq_zip upt_conv_Cons Let_def)

lemma initial_returns: "\<exists>s0. initial vtg gbb = Inr s0"
  by (simp add: initial_def seed_graph_eq)

lemma initial_renderer: "initial vtg gbb = Inr s0 \<Longrightarrow> renderer s0 = Sigma vtg gbb"
  by (auto simp: initial_def split: sum.splits)

lemma initial_drag: "initial vtg gbb = Inr s0 \<Longrightarrow> draggedNode s0 = None \<and> \<not> isDragging s0"
  by (auto simp: initial_def split: sum.splits)

section \<open>Runs\<close>

lemma run_Nil [simp]: "run s [] = s"
  by (simp add: run_def)

lemma run_Cons: "run s (ev # evs) = run (step s ev) evs"
  by (simp add: run_def)

lemma run_append: "run s (xs @ ys) = run (run s xs) ys"
  by (simp add: run_def)

lemma run_snoc: "run s (evs @ [ev]) = step (run s evs) ev"
  by (simp add: run_def)

section \<open>The custom bounding box\<close>

lemma renderer_step:
  "renderer (step s ev) =
     (if ev = MouseDown \<and> customBBox (renderer s) = None
      then setCustomBBox (renderer s) (getBBox (renderer s) (graph s)) else renderer s)"
  by (cases ev)
     (auto simp: step_def downNode_def mousemovebody_def mouseup_def mousedown_def
        clickStage_def Let_def split: sum.splits option.splits prod.splits)

lemma renderer_run_no_press:
  "MouseDown \<notin> set evs \<Longrightarrow> renderer (run s evs) = renderer s"
  by (induction evs arbitrary: s) (auto simp: run_Cons renderer_step)

lemma renderer_run_fixed:
  "customBBox (renderer s) \<noteq> None \<Longrightarrow> renderer (run s evs) = renderer s"
proof (induction evs arbitrary: s)
  case Nil
  show ?case by simp
next
  case (Cons ev evs)
  from Cons.prems have same: "renderer (step s ev) = renderer s"
    by (auto simp: renderer_step)
  with Cons.prems have "renderer (run (step s ev) evs) = renderer (step s ev)"
    by (intro Cons.IH) simp
  with same show ?case by (simp add: run_Cons)
qed

text \<open>
  Claim C7. Let the page start from the seed and let \<open>pre\<close> be any events without a
  pointer press. Up to then the Renderer has no custom bounding box. The first pointer
  press fixes it to the bounding box the Renderer computes from the graph at that moment,
  and whatever events \<open>post\<close> follow, further pointer presses among them, the custom
  bounding box is still that one.
\<close>

theorem custom_bbox_captured_once:
  assumes "initial vtg gbb = Inr s0" and "MouseDown \<notin> set pre"
  shows "customBBox (renderer (run s0 pre)) = None \<and>
         customBBox (renderer (run s0 (pre @ [MouseDown]))) = Some (gbb (graph (run s0 pre))) \<and>
         customBBox (renderer (run s0 (pre @ MouseDown # post))) =
           Some (gbb (graph (run s0 pre)))"
proof -
  have r0: "renderer s0 = Sigma vtg gbb"
    using assms(1) by (rule initial_renderer)
  have before: "renderer (run s0 pre) = Sigma vtg gbb"
    using assms(2) r0 by (simp add: renderer_run_no_press)
  have press: "renderer (step (run s0 pre) MouseDown) =
      setCustomBBox (Sigma vtg gbb) (gbb (graph (run s0 pre)))"
    using before by (simp add: renderer_step Sigma_def)
  have fixed: "customBBox (renderer (step (run s0 pre) MouseDown)) \<noteq> None"
    using press by (simp add: setCustomBBox_def)
  have later: "renderer (run (step (run s0 pre) MouseDown) post) =
      renderer (step (run s0 pre) MouseDown)"
    using fixed by (rule renderer_run_fixed)
  show ?thesis
    using before press later
    by (simp add: run_append run_Cons Sigma_def setCustomBBox_def)
qed

theorem custom_bbox_captured_once_witness:
  "\<exists>s0. initial (\<lambda>p. p) (\<lambda>g. ((0, real (graph_order g)), (0, 1))) = Inr s0 \<and>
     MouseDown \<notin> set [MouseMoveBody (3, 4)] \<and>
     customBBox (renderer (run s0 [MouseMoveBody (3, 4)])) = None \<and>
     customBBox (renderer (run s0 ([MouseMoveBody (3, 4)] @ MouseDown #
        [ClickStage (1, 1) ''6f1c'' ''#ffffff'', MouseDown]))) = Some ((0, 8), (0, 1))"
proof -
  obtain s0 where s0: "initial (\<lambda>p. p) (\<lambda>g. ((0, real (graph_order g)), (0, 1))) = Inr s0"
    using initial_returns by blast
  have order: "graph_order (graph (run s0 [MouseMoveBody (3, 4)])) = 8"
    using s0
    by (auto simp: initial_def seed_graph_eq run_Cons step_def mousemovebody_def
        graph_order_def)
  have no_press: "MouseDown \<notin> set [MouseMoveBody (3, 4)]"
    by simp
  show ?thesis
    using custom_bbox_captured_once [OF s0 no_press,
        of "[ClickStage (1, 1) ''6f1c'' ''#ffffff'', MouseDown]"] order s0
    by auto
qed

section \<open>Sorting, the nearest nodes and the stage click\<close>

lemma mset_insert_by: "mset (insert_by cmp a bs) = add_mset a (mset bs)"
  by (induction bs) simp_all

lemma mset_sort_by: "mset (sort_by cmp xs) = mset xs"
  by (induction xs) (simp_all add: sort_by_def mset_insert_by)

lemma set_sort_by: "set (sort_by cmp xs) = set xs"
  using mset_sort_by [of cmp xs] by (metis set_mset_mset)

lemma length_sort_by: "length (sort_by cmp xs) = length xs"
  using mset_sort_by [of cmp xs] by (metis size_mset)

lemma distinct_map_sort_by: "distinct (map f (sort_by cmp xs)) = distinct (map f xs)"
proof -
  have "mset (map f (sort_by cmp xs)) = mset (map f xs)"
    by (simp add: mset_sort_by)
  then show ?thesis
    by (rule mset_eq_imp_distinct_iff)
qed

lemma insert_by_insort_key:
  "\<forall>b \<in> set bs. positive (cmp a b) = (f a > f b) \<Longrightarrow> insert_by cmp a bs = insort_key f a bs"
  by (induction bs) auto

lemma sort_by_sort_key:
  "\<forall>a \<in> set xs. \<forall>b \<in> set xs. positive (cmp a b) = (f a > f b) \<Longrightarrow>
     sort_by cmp xs = sort_key f xs"
proof (induction xs)
  case Nil
  show ?case by (simp add: sort_by_def)
next
  case (Cons x xs)
  then have IH: "sort_by cmp xs = sort_key f xs"
    by simp
  have "\<forall>b \<in> set (sort_key f xs). positive (cmp x b) = (f x > f b)"
    using Cons.prems by simp
  then have "insert_by cmp x (sort_key f xs) = insort_key f x (sort_key f xs)"
    by (rule insert_by_insort_key)
  with IH show ?case
    by (simp add: sort_by_def sort_key_def)
qed

lemma getNodeAttributes_hasNode:
  "hasNode g n \<Longrightarrow> \<exists>attrs. getNodeAttributes g n = Inr attrs \<and> (n, attrs) \<in> set (node_entries g)"
  by (auto simp: getNodeAttributes_def hasNode_def nodes_def split: option.splits
      dest: map_of_SomeD simp: map_of_eq_None_iff)

lemma map_distance_keys:
  "set ns \<subseteq> set (nodes g) \<Longrightarrow> \<exists>ds. map_distance g node ns = Inr ds \<and> map fst ds = ns"
proof (induction ns)
  case Nil
  show ?case by simp
next
  case (Cons n ns)
  then obtain ds where ds: "map_distance g node ns = Inr ds" "map fst ds = ns"
    by auto
  from Cons.prems have "hasNode g n"
    by (simp add: hasNode_def)
  then obtain attrs where "getNodeAttributes g n = Inr attrs"
    using getNodeAttributes_hasNode by blast
  with ds show ?case by simp
qed


lemma closestNodes_total:
  "\<exists>closest. closestNodes g node = Inr closest \<and> set (map fst closest) \<subseteq> set (nodes g) \<and>
     length closest = min 2 (graph_order g) \<and>
     (distinct (nodes g) \<longrightarrow> distinct (map fst closest))"
proof -
  obtain ds where ds: "map_distance g node (nodes g) = Inr ds" "map fst ds = nodes g"
    using map_distance_keys [of "nodes g" g node] by auto
  let ?sorted = "sort_by compare_distance ds"
  have c: "closestNodes g node = Inr (take 2 ?sorted)"
    using ds by (simp add: closestNodes_def)
  have "set (map fst (take 2 ?sorted)) \<subseteq> set (map fst ?sorted)"
    by (metis set_take_subset take_map)
  also have "\<dots> = set (map fst ds)"
    by (simp add: set_sort_by)
  also have "\<dots> = set (nodes g)"
    by (simp only: ds(2))
  finally have sub: "set (map fst (take 2 ?sorted)) \<subseteq> set (nodes g)" .
  have "length ds = length (nodes g)"
    by (metis ds(2) length_map)
  then have len: "length (take 2 ?sorted) = min 2 (graph_order g)"
    by (simp add: length_sort_by graph_order_def nodes_def min.commute)
  have "distinct (map fst ?sorted) = distinct (nodes g)"
    by (simp only: distinct_map_sort_by ds(2))
  then have dist: "distinct (nodes g) \<longrightarrow> distinct (map fst (take 2 ?sorted))"
    by (simp add: take_map [symmetric] del: take_map)
  from c sub len dist show ?thesis by blast
qed

lemma hasEdge_append:
  "hasEdge (g\<lparr>edge_entries := edge_entries g @ [(a, b, attrs)]\<rparr>) source target =
     (hasEdge g source target \<or> (a = source \<and> b = target))"
  by (auto simp: hasEdge_def list_ex_iff)

lemma hasNode_edge_update [simp]: "hasNode (g\<lparr>edge_entries := es\<rparr>) n = hasNode g n"
  by (simp add: hasNode_def nodes_def)

lemma addEdges_general:
  "addEdges g ident es = (g', err) \<Longrightarrow>
     node_entries g' = node_entries g \<and>
     (\<exists>k \<le> length es. edge_entries g' =
        edge_entries g @ map (\<lambda>e. (ident, fst e, Map.empty)) (take k es))"
proof (induction es arbitrary: g)
  case Nil
  then show ?case by simp
next
  case (Cons e es)
  show ?case
  proof (cases "addEdge g ident (fst e) Map.empty")
    case (Inl er)
    with Cons.prems have "g' = g" by simp
    then have "edge_entries g' =
        edge_entries g @ map (\<lambda>e. (ident, fst e, Map.empty)) (take 0 (e # es))"
      by simp
    with \<open>g' = g\<close> show ?thesis by blast
  next
    case (Inr g1)
    then have g1: "node_entries g1 = node_entries g"
      "edge_entries g1 = edge_entries g @ [(ident, fst e, Map.empty)]"
      by (auto dest: addEdge_Inr)
    from Inr Cons.prems have "addEdges g1 ident es = (g', err)" by simp
    from Cons.IH [OF this] obtain k where k: "k \<le> length es"
      "node_entries g' = node_entries g1"
      "edge_entries g' = edge_entries g1 @ map (\<lambda>e. (ident, fst e, Map.empty)) (take k es)"
      by blast
    have "edge_entries g' =
        edge_entries g @ map (\<lambda>e. (ident, fst e, Map.empty)) (take (Suc k) (e # es))"
      using k(3) g1(2) by simp
    moreover have "Suc k \<le> length (e # es)" using k(1) by simp
    ultimately show ?thesis using k(2) g1(1) by metis
  qed
qed

lemma addEdges_all:
  "hasNode g ident \<Longrightarrow> \<forall>e \<in> set es. hasNode g (fst e) \<and> \<not> hasEdge g ident (fst e) \<Longrightarrow>
   distinct (map fst es) \<Longrightarrow>
     addEdges g ident es =
       (g\<lparr>edge_entries := edge_entries g @ map (\<lambda>e. (ident, fst e, Map.empty)) es\<rparr>, None)"
proof (induction es arbitrary: g)
  case Nil
  show ?case by simp
next
  case (Cons e es)
  let ?g1 = "g\<lparr>edge_entries := edge_entries g @ [(ident, fst e, Map.empty)]\<rparr>"
  have first: "addEdge g ident (fst e) Map.empty = Inr ?g1"
    using Cons.prems by (simp add: addEdge_def)
  have "addEdges ?g1 ident es =
      (?g1\<lparr>edge_entries := edge_entries ?g1 @ map (\<lambda>e. (ident, fst e, Map.empty)) es\<rparr>, None)"
  proof (rule Cons.IH)
    show "hasNode ?g1 ident" using Cons.prems(1) by simp
    show "\<forall>e' \<in> set es. hasNode ?g1 (fst e') \<and> \<not> hasEdge ?g1 ident (fst e')"
      using Cons.prems(2,3) by (auto simp: hasEdge_append)
    show "distinct (map fst es)" using Cons.prems(3) by simp
  qed
  with first show ?case by simp
qed

lemma edges_ok_no_edge: "edges_ok g \<Longrightarrow> \<not> hasNode g source \<Longrightarrow> \<not> hasEdge g source target"
  by (auto simp: edges_ok_def hasEdge_def list_all_iff list_ex_iff)

lemma clickStage_fresh:
  assumes "consistent (graph s)" and "\<not> hasNode (graph s) ident"
    and "closestNodes (graph s) (new_node (viewportToGraph (renderer s) event) colour) = Inr closest"
  shows "clickStage s event ident colour =
    Returned (s\<lparr>graph := \<lparr>node_entries = node_entries (graph s) @
          [(ident, new_node (viewportToGraph (renderer s) event) colour)],
        edge_entries = edge_entries (graph s) @
          map (\<lambda>c. (ident, fst c, Map.empty)) closest\<rparr>\<rparr>)"
proof -
  let ?node = "new_node (viewportToGraph (renderer s) event) colour"
  let ?g1 = "(graph s)\<lparr>node_entries := node_entries (graph s) @ [(ident, ?node)]\<rparr>"
  obtain c' where c': "closestNodes (graph s) ?node = Inr c'"
    "set (map fst c') \<subseteq> set (nodes (graph s))"
    "distinct (nodes (graph s)) \<longrightarrow> distinct (map fst c')"
    using closestNodes_total by blast
  with assms(3) have closest: "set (map fst closest) \<subseteq> set (nodes (graph s))"
    "distinct (map fst closest)"
    using assms(1) by (auto simp: consistent_def)
  have add: "addNode (graph s) ident ?node = Inr ?g1"
    using assms(2) by (simp add: addNode_def)
  have "addEdges ?g1 ident closest =
      (?g1\<lparr>edge_entries := edge_entries ?g1 @ map (\<lambda>e. (ident, fst e, Map.empty)) closest\<rparr>, None)"
  proof (rule addEdges_all)
    show "hasNode ?g1 ident" by (simp add: hasNode_def nodes_def)
    have "\<not> hasEdge (graph s) ident t" for t
      using assms(1,2) by (simp add: consistent_def edges_ok_no_edge)
    then have "\<not> hasEdge ?g1 ident t" for t
      by (simp add: hasEdge_def)
    moreover have "hasNode ?g1 (fst e)" if "e \<in> set closest" for e
      using closest(1) that by (auto simp: hasNode_def nodes_def)
    ultimately show "\<forall>e \<in> set closest. hasNode ?g1 (fst e) \<and> \<not> hasEdge ?g1 ident (fst e)"
      by blast
    show "distinct (map fst closest)" by (rule closest(2))
  qed
  with add assms(3) show ?thesis
    by (simp add: clickStage_def Let_def)
qed

text \<open>
  Claim C2. A stage click on a consistent store with at least two nodes, with an
  identifier from \<open>uuid()\<close> that is no node of the store yet, returns without a throw.
  Afterwards the store has exactly one node more, the new one, placed at the converted
  click point, and exactly two edges more; both start at the new node and they end at two
  different nodes that were there before.
\<close>

theorem stage_click_two_neighbours:
  assumes "consistent (graph s)" and "2 \<le> graph_order (graph s)"
    and "\<not> hasNode (graph s) ident"
  shows "\<exists>s' a b. clickStage s event ident colour = Returned s' \<and>
     node_entries (graph s') = node_entries (graph s) @
       [(ident, new_node (viewportToGraph (renderer s) event) colour)] \<and>
     edge_entries (graph s') = edge_entries (graph s) @
       [(ident, a, Map.empty), (ident, b, Map.empty)] \<and>
     a \<noteq> b \<and> hasNode (graph s) a \<and> hasNode (graph s) b"
proof -
  let ?node = "new_node (viewportToGraph (renderer s) event) colour"
  obtain closest where c: "closestNodes (graph s) ?node = Inr closest"
    "set (map fst closest) \<subseteq> set (nodes (graph s))"
    "length closest = min 2 (graph_order (graph s))"
    "distinct (nodes (graph s)) \<longrightarrow> distinct (map fst closest)"
    using closestNodes_total by blast
  from c(3) assms(2) have "length closest = 2" by simp
  then obtain c1 c2 where two: "closest = [c1, c2]"
    by (auto simp: length_Suc_conv numeral_2_eq_2)
  from c(4) assms(1) two have "fst c1 \<noteq> fst c2"
    by (simp add: consistent_def)
  moreover from c(2) two have "hasNode (graph s) (fst c1)" "hasNode (graph s) (fst c2)"
    by (simp_all add: hasNode_def)
  ultimately show ?thesis
    using clickStage_fresh [OF assms(1) assms(3) c(1)] two by simp
qed

theorem stage_click_two_neighbours_witness:
  "(let s = \<lparr>graph = \<lparr>node_entries =
                 [(''a'', [''x'' \<mapsto> Num 0, ''y'' \<mapsto> Num 0]),
                  (''b'', [''x'' \<mapsto> Num 10, ''y'' \<mapsto> Num 0]),
                  (''c'', [''x'' \<mapsto> Num 0, ''y'' \<mapsto> Num 10])],
               edge_entries = [(''a'', ''b'', Map.empty)]\<rparr>,
             renderer = Sigma (\<lambda>p. p) (\<lambda>g. ((0, 1), (0, 1))),
             draggedNode = None, isDragging = False\<rparr>
    in consistent (graph s) \<and> 2 \<le> graph_order (graph s) \<and> \<not> hasNode (graph s) ''n'' \<and>
       (\<exists>s' a b. clickStage s (1, 0) ''n'' ''#ffffff'' = Returned s' \<and>
          node_entries (graph s') = node_entries (graph s) @
            [(''n'', new_node (viewportToGraph (renderer s) (1, 0)) ''#ffffff'')] \<and>
          edge_entries (graph s') = edge_entries (graph s) @
            [(''n'', a, Map.empty), (''n'', b, Map.empty)] \<and>
          a \<noteq> b \<and> hasNode (graph s) a \<and> hasNode (graph s) b))"
proof -
  let ?s = "\<lparr>graph = \<lparr>node_entries =
                 [(''a'', [''x'' \<mapsto> Num 0, ''y'' \<mapsto> Num 0]),
                  (''b'', [''x'' \<mapsto> Num 10, ''y'' \<mapsto> Num 0]),
                  (''c'', [''x'' \<mapsto> Num 0, ''y'' \<mapsto> Num 10])],
               edge_entries = [(''a'', ''b'', Map.empty)]\<rparr>,
             renderer = Sigma (\<lambda>p. p) (\<lambda>g. ((0, 1), (0, 1))),
             draggedNode = None, isDragging = False\<rparr>"
  have h1: "consistent (graph ?s)"
    by (simp add: consistent_def edges_ok_def nodes_def hasNode_def)
  have h2: "2 \<le> graph_order (graph ?s)"
    by (simp add: graph_order_def)
  have h3: "\<not> hasNode (graph ?s) ''n''"
    by (simp add: nodes_def hasNode_def)
  from stage_click_two_neighbours [OF h1 h2 h3, of "(1, 0)" "''#ffffff''"] h1 h2 h3
  show ?thesis
    unfolding Let_def by blast
qed

text \<open>
  Claim C4. A stage click on a consistent store with fewer than two nodes, with an
  identifier that is no node of the store yet, returns without a throw and adds exactly
  one node. With no node before, no edge is added; with exactly one node before, exactly
  one edge is added, from the new node to that node.
\<close>

theorem stage_click_few_nodes:
  assumes "consistent (graph s)" and "graph_order (graph s) < 2"
    and "\<not> hasNode (graph s) ident"
  shows "\<exists>s'. clickStage s event ident colour = Returned s' \<and>
     node_entries (graph s') = node_entries (graph s) @
       [(ident, new_node (viewportToGraph (renderer s) event) colour)] \<and>
     (graph_order (graph s) = 0 \<longrightarrow> edge_entries (graph s') = edge_entries (graph s)) \<and>
     (graph_order (graph s) = 1 \<longrightarrow>
        (\<exists>a. nodes (graph s) = [a] \<and>
           edge_entries (graph s') = edge_entries (graph s) @ [(ident, a, Map.empty)]))"
proof -
  let ?node = "new_node (viewportToGraph (renderer s) event) colour"
  obtain closest where c: "closestNodes (graph s) ?node = Inr closest"
    "set (map fst closest) \<subseteq> set (nodes (graph s))"
    "length closest = min 2 (graph_order (graph s))"
    using closestNodes_total by blast
  from c(3) assms(2) have len: "length closest = graph_order (graph s)" by simp
  have one: "\<exists>a. nodes (graph s) = [a] \<and>
      map (\<lambda>c. (ident, fst c, Map.empty :: attributes)) closest = [(ident, a, Map.empty)]"
    if "graph_order (graph s) = 1"
  proof -
    from that obtain a where a: "nodes (graph s) = [a]"
      by (auto simp: graph_order_def nodes_def length_Suc_conv)
    from that len obtain c1 where c1: "closest = [c1]"
      by (auto simp: length_Suc_conv)
    with c(2) a have "fst c1 = a" by simp
    with a c1 show ?thesis by simp
  qed
  have none: "closest = []" if "graph_order (graph s) = 0"
    using that len by simp
  show ?thesis
    using clickStage_fresh [OF assms(1) assms(3) c(1)] one none
    by (auto simp del: One_nat_def)
qed

theorem stage_click_few_nodes_witness:
  "(let s = \<lparr>graph = \<lparr>node_entries = [(''a'', [''x'' \<mapsto> Num 3, ''y'' \<mapsto> Num 4])],
               edge_entries = []\<rparr>,
             renderer = Sigma (\<lambda>p. p) (\<lambda>g. ((0, 1), (0, 1))),
             draggedNode = None, isDragging = False\<rparr>
    in consistent (graph s) \<and> graph_order (graph s) < 2 \<and> \<not> hasNode (graph s) ''n'' \<and>
       (\<exists>s'. clickStage s (1, 0) ''n'' ''#ffffff'' = Returned s' \<and>
          nodes (graph s') = [''a'', ''n''] \<and>
          edge_entries (graph s') = [(''n'', ''a'', Map.empty)]))"
proof -
  let ?s = "\<lparr>graph = \<lparr>node_entries = [(''a'', [''x'' \<mapsto> Num 3, ''y'' \<mapsto> Num 4])],
               edge_entries = []\<rparr>,
             renderer = Sigma (\<lambda>p. p) (\<lambda>g. ((0, 1), (0, 1))),
             draggedNode = None, isDragging = False\<rparr>"
  have h1: "consistent (graph ?s)"
    by (simp add: consistent_def edges_ok_def nodes_def hasNode_def)
  have h2: "graph_order (graph ?s) < 2"
    by (simp add: graph_order_def)
  have h3: "\<not> hasNode (graph ?s) ''n''"
    by (simp add: nodes_def hasNode_def)
  have one: "graph_order (graph ?s) = 1" "nodes (graph ?s) = [''a'']"
    "edge_entries (graph ?s) = []"
    by (simp_all add: graph_order_def nodes_def)
  from stage_click_few_nodes [OF h1 h2 h3, of "(1, 0)" "''#ffffff''"]
  obtain s' where s': "clickStage ?s (1, 0) ''n'' ''#ffffff'' = Returned s'"
    "node_entries (graph s') = node_entries (graph ?s) @
       [(''n'', new_node (viewportToGraph (renderer ?s) (1, 0)) ''#ffffff'')]"
    "graph_order (graph ?s) = 1 \<longrightarrow>
       (\<exists>a. nodes (graph ?s) = [a] \<and>
          edge_entries (graph s') = edge_entries (graph ?s) @ [(''n'', a, Map.empty)])"
    by blast
  from s'(3) one have "edge_entries (graph s') = [(''n'', ''a'', Map.empty)]"
    by auto
  moreover from s'(2) have "nodes (graph s') = [''a'', ''n'']"
    by (simp add: nodes_def)
  ultimately show ?thesis
    using s'(1) h1 h2 h3 unfolding Let_def by blast
qed

lemma clickStage_effect:
  "renderer (final (clickStage s event ident colour)) = renderer s \<and>
   draggedNode (final (clickStage s event ident colour)) = draggedNode s \<and>
   isDragging (final (clickStage s event ident colour)) = isDragging s \<and>
   (graph (final (clickStage s event ident colour)) = graph s \<or>
    \<not> hasNode (graph s) ident \<and>
    node_entries (graph (final (clickStage s event ident colour))) =
      node_entries (graph s) @ [(ident, new_node (viewportToGraph (renderer s) event) colour)] \<and>
    (\<exists>closest k. closestNodes (graph s) (new_node (viewportToGraph (renderer s) event) colour)
         = Inr closest \<and>
       edge_entries (graph (final (clickStage s event ident colour))) =
         edge_entries (graph s) @ map (\<lambda>c. (ident, fst c, Map.empty)) (take k closest)))"
proof -
  let ?node = "new_node (viewportToGraph (renderer s) event) colour"
  obtain closest where c: "closestNodes (graph s) ?node = Inr closest"
    using closestNodes_total by blast
  show ?thesis
  proof (cases "addNode (graph s) ident ?node")
    case (Inl e)
    with c show ?thesis by (simp add: clickStage_def Let_def)
  next
    case (Inr g1)
    then have g1: "\<not> hasNode (graph s) ident"
      "node_entries g1 = node_entries (graph s) @ [(ident, ?node)]"
      "edge_entries g1 = edge_entries (graph s)"
      by (auto dest: addNode_Inr)
    obtain g2 err where a: "addEdges g1 ident closest = (g2, err)"
      by (cases "addEdges g1 ident closest")
    from addEdges_general [OF a] obtain k where
      "node_entries g2 = node_entries g1"
      "edge_entries g2 = edge_entries g1 @ map (\<lambda>c. (ident, fst c, Map.empty)) (take k closest)"
      by blast
    with g1 c Inr a show ?thesis
      by (cases err) (auto simp: clickStage_def Let_def)
  qed
qed

text \<open>
  Claim C9. Whatever the state, the edges a stage click leaves behind are the old edges
  followed by new ones, and every new edge starts at the new node and ends at a node
  that was in the store before the click and is not the new node: no self-loop is made.
  The candidates are taken from the store as it is before the insertion, so an identifier
  that is not yet a node is never among the selected neighbours.
\<close>

theorem stage_click_no_self_loop:
  "\<exists>new. edge_entries (graph (final (clickStage s event ident colour))) =
       edge_entries (graph s) @ new \<and>
     (\<forall>e \<in> set new. fst e = ident \<and> fst (snd e) \<noteq> ident \<and> hasNode (graph s) (fst (snd e))) \<and>
     (\<forall>closest. closestNodes (graph s) (new_node (viewportToGraph (renderer s) event) colour)
          = Inr closest \<and> \<not> hasNode (graph s) ident \<longrightarrow> ident \<notin> set (map fst closest))"
proof -
  let ?node = "new_node (viewportToGraph (renderer s) event) colour"
  let ?s' = "final (clickStage s event ident colour)"
  obtain c0 where c0: "closestNodes (graph s) ?node = Inr c0"
    "set (map fst c0) \<subseteq> set (nodes (graph s))"
    using closestNodes_total by blast
  have part2: "\<forall>closest. closestNodes (graph s) ?node = Inr closest \<and>
      \<not> hasNode (graph s) ident \<longrightarrow> ident \<notin> set (map fst closest)"
    using c0 by (auto simp: hasNode_def)
  from clickStage_effect [of s event ident colour]
  consider "graph ?s' = graph s"
    | k where "\<not> hasNode (graph s) ident"
      "edge_entries (graph ?s') =
         edge_entries (graph s) @ map (\<lambda>c. (ident, fst c, Map.empty)) (take k c0)"
    using c0(1) by auto
  then show ?thesis
  proof cases
    case 1
    then have "edge_entries (graph ?s') = edge_entries (graph s) @ []" by simp
    with part2 show ?thesis by (metis empty_iff list.set(1))
  next
    case 2
    have "\<forall>e \<in> set (map (\<lambda>c. (ident, fst c, Map.empty)) (take k c0)).
        fst e = ident \<and> fst (snd e) \<noteq> ident \<and> hasNode (graph s) (fst (snd e))"
      using c0(2) 2(1) by (auto simp: hasNode_def dest!: in_set_takeD)
    with 2(2) part2 show ?thesis by blast
  qed
qed

theorem stage_click_no_self_loop_witness:
  "(let s = \<lparr>graph = \<lparr>node_entries =
                 [(''a'', [''x'' \<mapsto> Num 0, ''y'' \<mapsto> Num 0]),
                  (''b'', [''x'' \<mapsto> Num 10, ''y'' \<mapsto> Num 0]),
                  (''c'', [''x'' \<mapsto> Num 0, ''y'' \<mapsto> Num 10])],
               edge_entries = [(''a'', ''b'', Map.empty)]\<rparr>,
             renderer = Sigma (\<lambda>p. p) (\<lambda>g. ((0, 1), (0, 1))),
             draggedNode = None, isDragging = False\<rparr>
    in \<exists>new. edge_entries (graph (final (clickStage s (1, 0) ''n'' ''#ffffff''))) =
           edge_entries (graph s) @ new \<and> length new = 2 \<and>
         list_all (\<lambda>e. fst e = ''n'' \<and> fst (snd e) \<noteq> ''n'' \<and> hasNode (graph s) (fst (snd e)))
           new)"
proof -
  let ?s = "\<lparr>graph = \<lparr>node_entries =
                 [(''a'', [''x'' \<mapsto> Num 0, ''y'' \<mapsto> Num 0]),
                  (''b'', [''x'' \<mapsto> Num 10, ''y'' \<mapsto> Num 0]),
                  (''c'', [''x'' \<mapsto> Num 0, ''y'' \<mapsto> Num 10])],
               edge_entries = [(''a'', ''b'', Map.empty)]\<rparr>,
             renderer = Sigma (\<lambda>p. p) (\<lambda>g. ((0, 1), (0, 1))),
             draggedNode = None, isDragging = False\<rparr>"
  from stage_click_no_self_loop [of ?s "(1, 0)" "''n''" "''#ffffff''"]
  obtain new where new:
    "edge_entries (graph (final (clickStage ?s (1, 0) ''n'' ''#ffffff''))) =
       edge_entries (graph ?s) @ new"
    "\<forall>e \<in> set new. fst e = ''n'' \<and> fst (snd e) \<noteq> ''n'' \<and> hasNode (graph ?s) (fst (snd e))"
    by blast
  have h1: "consistent (graph ?s)"
    by (simp add: consistent_def edges_ok_def nodes_def hasNode_def)
  have h3: "\<not> hasNode (graph ?s) ''n''"
    by (simp add: nodes_def hasNode_def)
  obtain closest where closest:
    "closestNodes (graph ?s) (new_node (viewportToGraph (renderer ?s) (1, 0)) ''#ffffff'') =
       Inr closest"
    "length closest = min 2 (graph_order (graph ?s))"
    using closestNodes_total by blast
  from clickStage_fresh [OF h1 h3 closest(1)] closest(2)
  have "length (edge_entries (graph (final (clickStage ?s (1, 0) ''n'' ''#ffffff'')))) = 3"
    by (simp add: graph_order_def)
  with new(1) have "length new = 2"
    by simp
  with new show ?thesis
    unfolding Let_def list_all_iff by blast
qed

section \<open>The pointer move\<close>

lemma node_attribute_update_entry:
  "node_attribute (g\<lparr>node_entries := map (update_entry n f) (node_entries g)\<rparr>) m name =
     (if m = n then (case map_of (node_entries g) m of None \<Rightarrow> None | Some attrs \<Rightarrow> f attrs name)
      else node_attribute g m name)"
  by (simp add: node_attribute_def map_of_update_entry split: option.splits)

lemma hasNode_map_of: "hasNode g n \<Longrightarrow> \<exists>attrs. map_of (node_entries g) n = Some attrs"
  by (metis getNodeAttributes_hasNode getNodeAttributes_def sum.simps(4) option.exhaust
      option.simps(4) sum.distinct(1))

lemma node_attribute_set:
  assumes "setNodeAttribute g n k v = Inr g'"
  shows "node_attribute g' m name =
     (if m = n \<and> name = k then Some v else node_attribute g m name)"
proof -
  from assms have n: "hasNode g n"
    and g': "g' = g\<lparr>node_entries := map (update_entry n (\<lambda>attrs. attrs(k \<mapsto> v))) (node_entries g)\<rparr>"
    by (auto simp: setNodeAttribute_def split: if_splits)
  from n obtain attrs where "map_of (node_entries g) n = Some attrs"
    using hasNode_map_of by blast
  then show ?thesis
    unfolding g' node_attribute_update_entry by (simp add: node_attribute_def)
qed

lemma node_attribute_remove:
  assumes "removeNodeAttribute g n k = Inr g'"
  shows "node_attribute g' m name =
     (if m = n \<and> name = k then None else node_attribute g m name)"
proof -
  from assms have n: "hasNode g n"
    and g': "g' = g\<lparr>node_entries := map (update_entry n (\<lambda>attrs. attrs(k := None))) (node_entries g)\<rparr>"
    by (auto simp: removeNodeAttribute_def split: if_splits)
  from n obtain attrs where "map_of (node_entries g) n = Some attrs"
    using hasNode_map_of by blast
  then show ?thesis
    unfolding g' node_attribute_update_entry by (simp add: node_attribute_def)
qed

lemma setNodeAttribute_hasNode:
  "hasNode g n \<Longrightarrow> \<exists>g'. setNodeAttribute g n k v = Inr g'"
  by (simp add: setNodeAttribute_def)

text \<open>
  Claim C10. Whatever the state, a pointer move leaves the edges, the list of node keys,
  the Renderer and the drag session (\<open>isDragging\<close>, \<open>draggedNode\<close>) as they were, and the
  only attributes whose value it can change are \<open>x\<close> and \<open>y\<close> of the dragged node: every
  attribute of every other node, and every other attribute of the dragged node, reads
  as before.
\<close>

theorem pointer_move_frame:
  "edge_entries (graph (final (mousemovebody s e))) = edge_entries (graph s) \<and>
   nodes (graph (final (mousemovebody s e))) = nodes (graph s) \<and>
   renderer (final (mousemovebody s e)) = renderer s \<and>
   isDragging (final (mousemovebody s e)) = isDragging s \<and>
   draggedNode (final (mousemovebody s e)) = draggedNode s \<and>
   (\<forall>n name. draggedNode s \<noteq> Some n \<or> (name \<noteq> ''x'' \<and> name \<noteq> ''y'') \<longrightarrow>
      node_attribute (graph (final (mousemovebody s e))) n name = node_attribute (graph s) n name)"
proof (cases "\<not> isDragging s \<or> falsy (draggedNode s)")
  case True
  then show ?thesis by (simp add: mousemovebody_def)
next
  case False
  then obtain node where node: "draggedNode s = Some node" "isDragging s" "node \<noteq> []"
    by (cases "draggedNode s") auto
  let ?pos = "viewportToGraph (renderer s) e"
  show ?thesis
  proof (cases "setNodeAttribute (graph s) node ''x'' (Num (fst ?pos))")
    case (Inl err)
    with node show ?thesis by (simp add: mousemovebody_def)
  next
    case (Inr g1)
    note g1 = setNodeAttribute_Inr [OF Inr] node_attribute_set [OF Inr]
    show ?thesis
    proof (cases "setNodeAttribute g1 node ''y'' (Num (snd ?pos))")
      case (Inl err)
      with node Inr g1 show ?thesis by (simp add: mousemovebody_def Let_def)
    next
      case Inr2: (Inr g2)
      note g2 = setNodeAttribute_Inr [OF Inr2] node_attribute_set [OF Inr2]
      from node Inr Inr2 g1 g2 show ?thesis by (simp add: mousemovebody_def Let_def)
    qed
  qed
qed

theorem pointer_move_frame_witness:
  "(let s = \<lparr>graph = \<lparr>node_entries =
                 [(''a'', [''x'' \<mapsto> Num 0, ''y'' \<mapsto> Num 0, ''highlighted'' \<mapsto> Bool True]),
                  (''b'', [''x'' \<mapsto> Num 10, ''y'' \<mapsto> Num 0])],
               edge_entries = [(''a'', ''b'', Map.empty)]\<rparr>,
             renderer = Sigma (\<lambda>p. p) (\<lambda>g. ((0, 1), (0, 1))),
             draggedNode = Some ''a'', isDragging = True\<rparr>
    in node_attribute (graph (final (mousemovebody s (5, 6)))) ''a'' ''x'' = Some (Num 5) \<and>
       node_attribute (graph (final (mousemovebody s (5, 6)))) ''a'' ''highlighted'' =
         node_attribute (graph s) ''a'' ''highlighted'' \<and>
       node_attribute (graph (final (mousemovebody s (5, 6)))) ''b'' ''x'' =
         node_attribute (graph s) ''b'' ''x'' \<and>
       edge_entries (graph (final (mousemovebody s (5, 6)))) = edge_entries (graph s) \<and>
       draggedNode (final (mousemovebody s (5, 6))) = Some ''a'' \<and>
       isDragging (final (mousemovebody s (5, 6))))"
proof -
  let ?s = "\<lparr>graph = \<lparr>node_entries =
                 [(''a'', [''x'' \<mapsto> Num 0, ''y'' \<mapsto> Num 0, ''highlighted'' \<mapsto> Bool True]),
                  (''b'', [''x'' \<mapsto> Num 10, ''y'' \<mapsto> Num 0])],
               edge_entries = [(''a'', ''b'', Map.empty)]\<rparr>,
             renderer = Sigma (\<lambda>p. p) (\<lambda>g. ((0, 1), (0, 1))),
             draggedNode = Some ''a'', isDragging = True\<rparr>"
  have moved: "node_attribute (graph (final (mousemovebody ?s (5, 6)))) ''a'' ''x'' = Some (Num 5)"
    by (simp add: mousemovebody_def Let_def setNodeAttribute_def hasNode_def nodes_def
        update_entry_def node_attribute_def Sigma_def)
  have d: "draggedNode ?s = Some ''a''" "isDragging ?s"
    by simp_all
  from pointer_move_frame [of ?s "(5, 6)"]
  have frame: "edge_entries (graph (final (mousemovebody ?s (5, 6)))) = edge_entries (graph ?s)"
    "isDragging (final (mousemovebody ?s (5, 6))) = isDragging ?s"
    "draggedNode (final (mousemovebody ?s (5, 6))) = draggedNode ?s"
    "\<And>n name. draggedNode ?s \<noteq> Some n \<or> (name \<noteq> ''x'' \<and> name \<noteq> ''y'') \<Longrightarrow>
       node_attribute (graph (final (mousemovebody ?s (5, 6)))) n name =
       node_attribute (graph ?s) n name"
    by blast+
  have "node_attribute (graph (final (mousemovebody ?s (5, 6)))) ''a'' ''highlighted'' =
      node_attribute (graph ?s) ''a'' ''highlighted''"
    by (rule frame(4)) simp
  moreover have "node_attribute (graph (final (mousemovebody ?s (5, 6)))) ''b'' ''x'' =
      node_attribute (graph ?s) ''b'' ''x''"
    by (rule frame(4)) simp
  ultimately show ?thesis
    using moved frame(1,2,3) d unfolding Let_def by simp
qed

section \<open>What each handler does to the state\<close>

lemma downNode_effect:
  "isDragging (final (downNode s n)) \<and> draggedNode (final (downNode s n)) = Some n \<and>
   renderer (final (downNode s n)) = renderer s \<and>
   (if hasNode (graph s) n
    then setNodeAttribute (graph s) n ''highlighted'' (Bool True) =
           Inr (graph (final (downNode s n))) \<and> thrown (downNode s n) = None
    else graph (final (downNode s n)) = graph s)"
  by (auto simp: downNode_def Let_def setNodeAttribute_def)

lemma mouseup_effect:
  "renderer (final (mouseup s)) = renderer s \<and>
   (if falsy (draggedNode s)
    then graph (final (mouseup s)) = graph s \<and> \<not> isDragging (final (mouseup s)) \<and>
         draggedNode (final (mouseup s)) = None
    else \<exists>n. draggedNode s = Some n \<and> n \<noteq> [] \<and>
      (if hasNode (graph s) n
       then removeNodeAttribute (graph s) n ''highlighted'' = Inr (graph (final (mouseup s))) \<and>
            \<not> isDragging (final (mouseup s)) \<and> draggedNode (final (mouseup s)) = None \<and>
            thrown (mouseup s) = None
       else final (mouseup s) = s))"
  by (cases "draggedNode s") (auto simp: mouseup_def removeNodeAttribute_def)

lemma mousemovebody_effect:
  "renderer (final (mousemovebody s e)) = renderer s \<and>
   isDragging (final (mousemovebody s e)) = isDragging s \<and>
   draggedNode (final (mousemovebody s e)) = draggedNode s \<and>
   (if isDragging s \<and> (\<exists>n. draggedNode s = Some n \<and> n \<noteq> [] \<and> hasNode (graph s) n)
    then \<exists>n g1. draggedNode s = Some n \<and>
       setNodeAttribute (graph s) n ''x'' (Num (fst (viewportToGraph (renderer s) e))) = Inr g1 \<and>
       setNodeAttribute g1 n ''y'' (Num (snd (viewportToGraph (renderer s) e))) =
         Inr (graph (final (mousemovebody s e))) \<and> thrown (mousemovebody s e) = None
    else graph (final (mousemovebody s e)) = graph s)"
proof (cases "isDragging s \<and> \<not> falsy (draggedNode s)")
  case False
  then show ?thesis
    by (cases "draggedNode s") (auto simp: mousemovebody_def)
next
  case True
  then obtain n where n: "draggedNode s = Some n" "n \<noteq> []" "isDragging s"
    by (cases "draggedNode s") auto
  let ?pos = "viewportToGraph (renderer s) e"
  show ?thesis
  proof (cases "hasNode (graph s) n")
    case False
    then have "setNodeAttribute (graph s) n ''x'' (Num (fst ?pos)) = Inl NotFoundGraphError"
      by (simp add: setNodeAttribute_def)
    with n False show ?thesis
      by (simp add: mousemovebody_def Let_def)
  next
    case True
    then obtain g1 where g1: "setNodeAttribute (graph s) n ''x'' (Num (fst ?pos)) = Inr g1"
      using setNodeAttribute_hasNode by blast
    then have "hasNode g1 n"
      using True by (auto dest: setNodeAttribute_Inr simp: hasNode_def)
    then obtain g2 where g2: "setNodeAttribute g1 n ''y'' (Num (snd ?pos)) = Inr g2"
      using setNodeAttribute_hasNode by blast
    from n True g1 g2 show ?thesis
      by (simp add: mousemovebody_def Let_def)
  qed
qed

lemma mousedown_effect:
  "graph (final (mousedown s)) = graph s \<and> isDragging (final (mousedown s)) = isDragging s \<and>
   draggedNode (final (mousedown s)) = draggedNode s"
  by (simp add: mousedown_def)

lemma nodes_step:
  "nodes (graph (step s ev)) = nodes (graph s) \<or>
   (\<exists>e ident colour. ev = ClickStage e ident colour \<and>
      nodes (graph (step s ev)) = nodes (graph s) @ [ident])"
proof (cases ev)
  case (DownNode n)
  with downNode_effect [of s n] show ?thesis
    by (auto simp: step_def dest: setNodeAttribute_Inr split: if_splits)
next
  case (MouseMoveBody e)
  with mousemovebody_effect [of s e] show ?thesis
    by (auto simp: step_def dest!: setNodeAttribute_Inr split: if_splits)
next
  case MouseUp
  with mouseup_effect [of s] show ?thesis
    by (auto simp: step_def dest: removeNodeAttribute_Inr split: if_splits)
next
  case MouseDown
  with mousedown_effect [of s] show ?thesis
    by (simp add: step_def)
next
  case (ClickStage e ident colour)
  with clickStage_effect [of s e ident colour] show ?thesis
    by (auto simp: step_def nodes_def)
qed

lemma nodes_run_grow: "set (nodes (graph s)) \<subseteq> set (nodes (graph (run s evs)))"
proof (induction evs arbitrary: s)
  case Nil
  show ?case by simp
next
  case (Cons ev evs)
  from nodes_step [of s ev] have "set (nodes (graph s)) \<subseteq> set (nodes (graph (step s ev)))"
    by auto
  with Cons [of "step s ev"] show ?case by (auto simp: run_Cons)
qed

section \<open>Consistency of the store is kept\<close>

lemma consistent_Graph: "consistent Graph"
  by (simp add: consistent_def edges_ok_def Graph_def nodes_def)

lemma consistent_addNode:
  "addNode g n attrs = Inr g' \<Longrightarrow> consistent g \<Longrightarrow> consistent g'"
  by (drule addNode_Inr)
     (auto simp: consistent_def edges_ok_def hasNode_def nodes_def list_all_iff)

lemma consistent_addEdge:
  "addEdge g source target attrs = Inr g' \<Longrightarrow> consistent g \<Longrightarrow> consistent g'"
  by (drule addEdge_Inr)
     (auto simp: consistent_def edges_ok_def hasNode_def nodes_def list_all_iff)

lemma edges_ok_nodes:
  "edges_ok g \<Longrightarrow> set (nodes g) \<subseteq> set (nodes g') \<Longrightarrow> set (edge_entries g') \<subseteq> set (edge_entries g) \<union> new \<Longrightarrow>
   \<forall>e \<in> new. hasNode g' (fst e) \<and> hasNode g' (fst (snd e)) \<Longrightarrow> edges_ok g'"
  by (auto simp: edges_ok_def list_all_iff hasNode_def)

lemma consistent_setNodeAttribute:
  "setNodeAttribute g n k v = Inr g' \<Longrightarrow> consistent g \<Longrightarrow> consistent g'"
  by (drule setNodeAttribute_Inr) (simp add: consistent_def edges_ok_def hasNode_def)

lemma consistent_removeNodeAttribute:
  "removeNodeAttribute g n k = Inr g' \<Longrightarrow> consistent g \<Longrightarrow> consistent g'"
  by (drule removeNodeAttribute_Inr) (simp add: consistent_def edges_ok_def hasNode_def)

lemma consistent_clickStage:
  assumes "consistent (graph s)"
  shows "consistent (graph (final (clickStage s event ident colour)))"
proof -
  let ?s' = "final (clickStage s event ident colour)"
  let ?node = "new_node (viewportToGraph (renderer s) event) colour"
  from clickStage_effect [of s event ident colour]
  consider "graph ?s' = graph s"
    | closest k where "\<not> hasNode (graph s) ident"
      "node_entries (graph ?s') = node_entries (graph s) @ [(ident, ?node)]"
      "closestNodes (graph s) ?node = Inr closest"
      "edge_entries (graph ?s') =
         edge_entries (graph s) @ map (\<lambda>c. (ident, fst c, Map.empty)) (take k closest)"
    by auto
  then show ?thesis
  proof cases
    case 1
    with assms show ?thesis by simp
  next
    case 2
    from closestNodes_total [of "graph s" ?node] 2(3)
    have sub: "set (map fst closest) \<subseteq> set (nodes (graph s))" by auto
    have nodes': "nodes (graph ?s') = nodes (graph s) @ [ident]"
      using 2(2) by (simp add: nodes_def)
    have "distinct (nodes (graph ?s'))"
      using assms 2(1) nodes' by (simp add: consistent_def hasNode_def)
    moreover have "edges_ok (graph ?s')"
    proof (rule edges_ok_nodes)
      show "edges_ok (graph s)" using assms by (simp add: consistent_def)
      show "set (nodes (graph s)) \<subseteq> set (nodes (graph ?s'))" using nodes' by auto
      show "set (edge_entries (graph ?s')) \<subseteq> set (edge_entries (graph s)) \<union>
          set (map (\<lambda>c. (ident, fst c, Map.empty)) (take k closest))"
        using 2(4) by simp
      show "\<forall>e \<in> set (map (\<lambda>c. (ident, fst c, Map.empty)) (take k closest)).
          hasNode (graph ?s') (fst e) \<and> hasNode (graph ?s') (fst (snd e))"
        using sub nodes' by (auto simp: hasNode_def dest!: in_set_takeD)
    qed
    ultimately show ?thesis by (simp add: consistent_def)
  qed
qed

lemma consistent_step: "consistent (graph s) \<Longrightarrow> consistent (graph (step s ev))"
proof (cases ev)
  case (DownNode n)
  assume "consistent (graph s)"
  with downNode_effect [of s n] DownNode show ?thesis
    by (auto simp: step_def dest: consistent_setNodeAttribute split: if_splits)
next
  case (MouseMoveBody e)
  assume "consistent (graph s)"
  with mousemovebody_effect [of s e] MouseMoveBody show ?thesis
    by (auto simp: step_def dest!: consistent_setNodeAttribute split: if_splits)
next
  case MouseUp
  assume "consistent (graph s)"
  with mouseup_effect [of s] MouseUp show ?thesis
    by (auto simp: step_def dest: consistent_removeNodeAttribute split: if_splits)
next
  case MouseDown
  assume "consistent (graph s)"
  with mousedown_effect [of s] MouseDown show ?thesis
    by (simp add: step_def)
next
  case (ClickStage e ident colour)
  assume "consistent (graph s)"
  with ClickStage show ?thesis
    by (simp add: step_def consistent_clickStage)
qed

lemma consistent_run: "consistent (graph s) \<Longrightarrow> consistent (graph (run s evs))"
  by (induction evs arbitrary: s) (simp_all add: run_Cons consistent_step)

lemma consistent_initial: "initial vtg gbb = Inr s0 \<Longrightarrow> consistent (graph s0)"
  by (auto simp: initial_def seed_graph_eq consistent_def edges_ok_def nodes_def hasNode_def)

text \<open>
  Claim C8. In every state the page reaches from the seed, by whatever sequence of
  events, both ends of every edge of the Graph Store are nodes of the Graph Store; and
  a node of the store is still a node of it after any further events.
\<close>

theorem edges_reference_nodes:
  "initial vtg gbb = Inr s0 \<Longrightarrow>
     edges_ok (graph (run s0 evs)) \<and>
     set (nodes (graph (run s0 evs))) \<subseteq> set (nodes (graph (run s0 (evs @ later))))"
  using consistent_run [OF consistent_initial, of vtg gbb s0 evs]
    nodes_run_grow [of "run s0 evs" later]
  by (simp add: consistent_def run_append)

section \<open>Pointer events outside a drag\<close>

lemma drag_flags_step:
  assumes "isDragging s = (draggedNode s \<noteq> None)"
  shows "isDragging (step s ev) = (draggedNode (step s ev) \<noteq> None)"
proof (cases ev)
  case (DownNode n)
  with downNode_effect [of s n] show ?thesis by (simp add: step_def)
next
  case (MouseMoveBody e)
  with mousemovebody_effect [of s e] assms show ?thesis by (simp add: step_def)
next
  case MouseUp
  with mouseup_effect [of s] assms show ?thesis
    by (auto simp: step_def split: if_splits)
next
  case MouseDown
  with mousedown_effect [of s] assms show ?thesis by (simp add: step_def)
next
  case (ClickStage e ident colour)
  with clickStage_effect [of s e ident colour] assms show ?thesis by (simp add: step_def)
qed

lemma drag_flags_run:
  "isDragging s = (draggedNode s \<noteq> None) \<Longrightarrow>
     isDragging (run s evs) = (draggedNode (run s evs) \<noteq> None)"
  by (induction evs arbitrary: s) (simp_all add: run_Cons drag_flags_step)

text \<open>
  Claim C5. A pointer move that arrives while \<open>isDragging\<close> is false, or while no dragged
  node is recorded, returns with the whole state as it was, so no node attribute is
  written. A pointer release that arrives while no dragged node is recorded throws
  nothing and leaves the Graph Store and the Renderer as they were: no highlight is
  cleared, and the drag session stays idle. On the page the two tests of an active drag
  agree: in every state reached from the seed in which \<open>isDragging\<close> is false, no dragged
  node is recorded.
\<close>

theorem pointer_events_without_drag:
  "(\<not> isDragging s \<or> draggedNode s = None \<longrightarrow> mousemovebody s e = Returned s) \<and>
   (draggedNode s = None \<longrightarrow>
      thrown (mouseup s) = None \<and> graph (final (mouseup s)) = graph s \<and>
      renderer (final (mouseup s)) = renderer s \<and> draggedNode (final (mouseup s)) = None \<and>
      \<not> isDragging (final (mouseup s))) \<and>
   (initial vtg gbb = Inr s0 \<and> \<not> isDragging (run s0 evs) \<longrightarrow>
      draggedNode (run s0 evs) = None)"
proof -
  have "draggedNode (run s0 evs) = None"
    if "initial vtg gbb = Inr s0" and "\<not> isDragging (run s0 evs)"
  proof -
    from that(1) have "isDragging s0 = (draggedNode s0 \<noteq> None)"
      by (simp add: initial_drag)
    then have "isDragging (run s0 evs) = (draggedNode (run s0 evs) \<noteq> None)"
      by (rule drag_flags_run)
    with that(2) show ?thesis by simp
  qed
  then show ?thesis
    by (simp add: mousemovebody_def mouseup_def)
qed

theorem pointer_events_without_drag_witness:
  "(let s = \<lparr>graph = \<lparr>node_entries =
                 [(''n'', [''x'' \<mapsto> Num 1, ''y'' \<mapsto> Num 2, ''highlighted'' \<mapsto> Bool True])],
               edge_entries = []\<rparr>,
             renderer = Sigma (\<lambda>p. p) (\<lambda>g. ((0, 1), (0, 1))),
             draggedNode = None, isDragging = False\<rparr>
    in \<not> isDragging s \<and> draggedNode s = None \<and>
       mousemovebody s (5, 6) = Returned s \<and>
       thrown (mouseup s) = None \<and> graph (final (mouseup s)) = graph s)"
  using pointer_events_without_drag
    [of "\<lparr>graph = \<lparr>node_entries =
                 [(''n'', [''x'' \<mapsto> Num 1, ''y'' \<mapsto> Num 2, ''highlighted'' \<mapsto> Bool True])],
               edge_entries = []\<rparr>,
             renderer = Sigma (\<lambda>p. p) (\<lambda>g. ((0, 1), (0, 1))),
             draggedNode = None, isDragging = False\<rparr>" "(5, 6)"]
  by (simp add: Let_def)

section \<open>Highlights\<close>

lemma highlighted_subset: "set (highlighted_nodes g) \<subseteq> set (nodes g)"
  by (auto simp: highlighted_nodes_def nodes_def)

lemma distinct_highlighted: "distinct (nodes g) \<Longrightarrow> distinct (highlighted_nodes g)"
  by (simp add: highlighted_nodes_def nodes_def distinct_map_filter)

lemma highlighted_update_other:
  "\<forall>attrs. f attrs ''highlighted'' = attrs ''highlighted'' \<Longrightarrow>
     node_entries g' = map (update_entry n f) (node_entries g) \<Longrightarrow>
     highlighted_nodes g' = highlighted_nodes g"
proof -
  assume f: "\<forall>attrs. f attrs ''highlighted'' = attrs ''highlighted''"
  have "map fst (filter (\<lambda>entry. snd entry ''highlighted'' \<noteq> None) (map (update_entry n f) es)) =
      map fst (filter (\<lambda>entry. snd entry ''highlighted'' \<noteq> None) es)" for es
    using f by (induction es) (auto simp: update_entry_def)
  then show "node_entries g' = map (update_entry n f) (node_entries g) \<Longrightarrow>
      highlighted_nodes g' = highlighted_nodes g"
    by (simp add: highlighted_nodes_def)
qed

lemma highlighted_set:
  "node_entries g' = map (update_entry n (\<lambda>attrs. attrs(''highlighted'' \<mapsto> v))) (node_entries g) \<Longrightarrow>
     set (highlighted_nodes g') \<subseteq> insert n (set (highlighted_nodes g))"
  by (auto simp: highlighted_nodes_def update_entry_def split: if_splits)

lemma highlighted_removed:
  "node_entries g' = map (update_entry n (\<lambda>attrs. attrs(''highlighted'' := None))) (node_entries g) \<Longrightarrow>
     set (highlighted_nodes g') \<subseteq> set (highlighted_nodes g) - {n}"
  by (auto simp: highlighted_nodes_def update_entry_def split: if_splits)

lemma highlighted_new_node:
  "node_entries g' = node_entries g @ [(ident, new_node p colour)] \<Longrightarrow>
     highlighted_nodes g' = highlighted_nodes g"
  by (simp add: highlighted_nodes_def new_node_def)

lemma drag_invariant_downNode:
  assumes "drag_invariant s" and "\<not> isDragging s"
  shows "drag_invariant (final (downNode s n))"
proof -
  let ?s' = "final (downNode s n)"
  from assms have none: "set (highlighted_nodes (graph s)) = {}"
    by (auto simp: drag_invariant_def)
  have flags: "isDragging ?s'" "draggedNode ?s' = Some n"
    using downNode_effect [of s n] by simp_all
  show ?thesis
  proof (cases "hasNode (graph s) n")
    case False
    with downNode_effect [of s n] have "graph ?s' = graph s" by simp
    with assms(1) none show ?thesis
      by (simp add: drag_invariant_def)
  next
    case True
    with downNode_effect [of s n]
    have "setNodeAttribute (graph s) n ''highlighted'' (Bool True) = Inr (graph ?s')" by simp
    note g' = setNodeAttribute_Inr [OF this]
    from g' have "set (highlighted_nodes (graph ?s')) \<subseteq> insert n (set (highlighted_nodes (graph s)))"
      by (intro highlighted_set [where v = "Bool True"]) simp
    with none have "set (highlighted_nodes (graph ?s')) \<subseteq> {n}" by simp
    with assms(1) g' flags show ?thesis
      by (auto simp: drag_invariant_def)
  qed
qed

lemma drag_invariant_mousemovebody:
  assumes "drag_invariant s"
  shows "drag_invariant (final (mousemovebody s e))"
proof -
  let ?s' = "final (mousemovebody s e)"
  let ?pos = "viewportToGraph (renderer s) e"
  note eff = mousemovebody_effect [of s e]
  show ?thesis
  proof (cases "graph ?s' = graph s")
    case True
    with eff assms show ?thesis by (simp add: drag_invariant_def)
  next
    case False
    with eff obtain n g1 where
      g1: "setNodeAttribute (graph s) n ''x'' (Num (fst ?pos)) = Inr g1" and
      g2: "setNodeAttribute g1 n ''y'' (Num (snd ?pos)) = Inr (graph ?s')"
      by (auto split: if_splits)
    note a = setNodeAttribute_Inr [OF g1] and b = setNodeAttribute_Inr [OF g2]
    have "highlighted_nodes g1 = highlighted_nodes (graph s)"
      using a by (intro highlighted_update_other [where n = n and f = "\<lambda>attrs. attrs(''x'' \<mapsto> Num (fst ?pos))"]) simp_all
    moreover have "highlighted_nodes (graph ?s') = highlighted_nodes g1"
      using b by (intro highlighted_update_other [where n = n and f = "\<lambda>attrs. attrs(''y'' \<mapsto> Num (snd ?pos))"]) simp_all
    ultimately show ?thesis
      using assms a b eff by (simp add: drag_invariant_def)
  qed
qed

lemma drag_invariant_mouseup:
  assumes "drag_invariant s"
  shows "drag_invariant (final (mouseup s)) \<and>
     (thrown (mouseup s) = None \<longrightarrow> highlighted_nodes (graph (final (mouseup s))) = [])"
proof -
  let ?s' = "final (mouseup s)"
  note eff = mouseup_effect [of s]
  from assms have hl: "\<forall>n \<in> set (highlighted_nodes (graph s)). draggedNode s = Some n \<and> n \<noteq> []"
    using highlighted_subset [of "graph s"] by (auto simp: drag_invariant_def)
  show ?thesis
  proof (cases "falsy (draggedNode s)")
    case True
    have "highlighted_nodes (graph s) = []"
    proof (cases "highlighted_nodes (graph s)")
      case Nil
      then show ?thesis .
    next
      case (Cons n ns)
      with hl have "draggedNode s = Some n" "n \<noteq> []" by auto
      with True show ?thesis by simp
    qed
    with eff True assms show ?thesis
      by (simp add: drag_invariant_def)
  next
    case False
    with eff obtain n where n: "draggedNode s = Some n" "n \<noteq> []"
      by auto
    show ?thesis
    proof (cases "hasNode (graph s) n")
      case False
      with eff n have same: "?s' = s" by auto
      have "highlighted_nodes (graph s) = []"
      proof (cases "highlighted_nodes (graph s)")
        case Nil
        then show ?thesis .
      next
        case (Cons m ms)
        with hl n have "m = n" by auto
        moreover from Cons have "m \<in> set (nodes (graph s))"
          using highlighted_subset [of "graph s"] by auto
        ultimately show ?thesis using False by (simp add: hasNode_def)
      qed
      with same assms show ?thesis by simp
    next
      case True
      with eff n have r: "removeNodeAttribute (graph s) n ''highlighted'' = Inr (graph ?s')"
        and flags: "\<not> isDragging ?s'" "draggedNode ?s' = None"
        by auto
      note g' = removeNodeAttribute_Inr [OF r]
      from g' have "set (highlighted_nodes (graph ?s')) \<subseteq> set (highlighted_nodes (graph s)) - {n}"
        by (intro highlighted_removed) simp
      with hl n have "\<And>m. m \<notin> set (highlighted_nodes (graph ?s'))" by auto
      then have "highlighted_nodes (graph ?s') = []"
        by (cases "highlighted_nodes (graph ?s')") (auto simp del: set_empty)
      with assms g' flags show ?thesis
        by (simp add: drag_invariant_def)
    qed
  qed
qed

lemma drag_invariant_clickStage:
  assumes "drag_invariant s" and "ident \<noteq> []"
  shows "drag_invariant (final (clickStage s event ident colour))"
proof -
  let ?s' = "final (clickStage s event ident colour)"
  note eff = clickStage_effect [of s event ident colour]
  show ?thesis
  proof (cases "graph ?s' = graph s")
    case True
    with eff assms show ?thesis by (simp add: drag_invariant_def)
  next
    case False
    with eff have fresh: "\<not> hasNode (graph s) ident"
      and n: "node_entries (graph ?s') = node_entries (graph s) @
        [(ident, new_node (viewportToGraph (renderer s) event) colour)]"
      by auto
    from n have "highlighted_nodes (graph ?s') = highlighted_nodes (graph s)"
      by (rule highlighted_new_node)
    moreover from n have "nodes (graph ?s') = nodes (graph s) @ [ident]"
      by (simp add: nodes_def)
    ultimately show ?thesis
      using assms fresh eff by (simp add: drag_invariant_def hasNode_def)
  qed
qed

lemma drag_invariant_step:
  assumes "drag_invariant s" and "uuid_event ev"
    and "case ev of DownNode node \<Rightarrow> \<not> isDragging s | _ \<Rightarrow> True"
  shows "drag_invariant (step s ev)"
proof (cases ev)
  case (DownNode n)
  with assms show ?thesis by (simp add: step_def drag_invariant_downNode)
next
  case (MouseMoveBody e)
  with assms show ?thesis by (simp add: step_def drag_invariant_mousemovebody)
next
  case MouseUp
  with assms show ?thesis by (simp add: step_def drag_invariant_mouseup)
next
  case MouseDown
  with assms(1) mousedown_effect [of s] show ?thesis
    by (simp add: step_def drag_invariant_def)
next
  case (ClickStage e ident colour)
  with assms show ?thesis by (simp add: step_def drag_invariant_clickStage)
qed

lemma drag_invariant_run:
  "drag_invariant s \<Longrightarrow> list_all uuid_event evs \<Longrightarrow> press_when_idle s evs \<Longrightarrow>
     drag_invariant (run s evs)"
  by (induction evs arbitrary: s) (simp_all add: run_Cons drag_invariant_step)

lemma drag_invariant_initial: "initial vtg gbb = Inr s0 \<Longrightarrow> drag_invariant s0"
  by (auto simp: initial_def seed_graph_eq drag_invariant_def nodes_def highlighted_nodes_def
      image_node_def border_node_def)

lemma length_le_one: "distinct xs \<Longrightarrow> set xs \<subseteq> {d} \<Longrightarrow> length xs \<le> 1"
  by (cases xs; cases "tl xs") auto

lemma drag_invariant_highlight: "drag_invariant s \<Longrightarrow> highlight_invariant s"
proof -
  assume inv: "drag_invariant s"
  show ?thesis
  proof (cases "isDragging s")
    case False
    with inv have "set (highlighted_nodes (graph s)) = {}"
      by (auto simp: drag_invariant_def)
    with False show ?thesis by (simp add: highlight_invariant_def)
  next
    case True
    show ?thesis
    proof (cases "draggedNode s")
      case None
      with inv have "set (highlighted_nodes (graph s)) = {}"
        by (auto simp: drag_invariant_def)
      with True show ?thesis by (simp add: highlight_invariant_def)
    next
      case (Some d)
      with inv have "set (highlighted_nodes (graph s)) \<subseteq> {d}"
        by (auto simp: drag_invariant_def)
      moreover from inv have "distinct (highlighted_nodes (graph s))"
        by (simp add: drag_invariant_def distinct_highlighted)
      ultimately have "length (highlighted_nodes (graph s)) \<le> 1"
        by (rule length_le_one [rotated])
      with True show ?thesis by (simp add: highlight_invariant_def)
    qed
  qed
qed

text \<open>
  Claim C6, amended. Start from the seed and take any sequence of events in which every
  node press arrives while no drag is active (the identifiers from \<open>uuid()\<close> being
  non-empty). In the state reached, at most one node carries \<open>highlighted\<close> if a drag is
  active, and no node carries it if no drag is active.
\<close>

theorem one_highlight_per_drag:
  assumes "initial vtg gbb = Inr s0" and "list_all uuid_event evs" and "press_when_idle s0 evs"
  shows "highlight_invariant (run s0 evs)"
  using drag_invariant_run [OF drag_invariant_initial [OF assms(1)] assms(2,3)]
  by (rule drag_invariant_highlight)

section \<open>Two presses without a release\<close>

text \<open>The definitions a concrete run of drag events unfolds to.\<close>

lemmas eval_defs = initial_def seed_graph_eq run_Cons step_def downNode_def mouseup_def
  mousemovebody_def setNodeAttribute_def removeNodeAttribute_def hasNode_def nodes_def
  update_entry_def highlighted_nodes_def highlight_invariant_def image_node_def border_node_def
  Let_def Sigma_def

text \<open>
  Claim C6 as it is stated, for any sequence of events, fails on the seeded page. After
  a press on John and a press on Mary with no release between them, a drag is active and
  two nodes are highlighted; after the release that follows no drag is active and John is
  still highlighted.
\<close>

theorem two_presses_leave_two_highlights:
  "(case initial (\<lambda>p. p) (\<lambda>g. ((0, 1), (0, 1))) of
      Inl e \<Rightarrow> False
    | Inr s0 \<Rightarrow>
        isDragging (run s0 [DownNode ''John'', DownNode ''Mary'']) \<and>
        highlighted_nodes (graph (run s0 [DownNode ''John'', DownNode ''Mary''])) =
          [''John'', ''Mary''] \<and>
        \<not> highlight_invariant (run s0 [DownNode ''John'', DownNode ''Mary'']) \<and>
        \<not> isDragging (run s0 [DownNode ''John'', DownNode ''Mary'', MouseUp]) \<and>
        highlighted_nodes (graph (run s0 [DownNode ''John'', DownNode ''Mary'', MouseUp])) =
          [''John''] \<and>
        \<not> highlight_invariant (run s0 [DownNode ''John'', DownNode ''Mary'', MouseUp]))"
  by (simp add: eval_defs)

theorem one_highlight_per_drag_witness:
  "(case initial (\<lambda>p. p) (\<lambda>g. ((0, 1), (0, 1))) of
      Inl e \<Rightarrow> False
    | Inr s0 \<Rightarrow>
        list_all uuid_event [DownNode ''John'', MouseMoveBody (1, 2), MouseUp, DownNode ''Mary''] \<and>
        press_when_idle s0 [DownNode ''John'', MouseMoveBody (1, 2), MouseUp, DownNode ''Mary''] \<and>
        highlight_invariant
          (run s0 [DownNode ''John'', MouseMoveBody (1, 2), MouseUp, DownNode ''Mary'']))"
proof -
  obtain s0 where s0: "initial (\<lambda>p. p) (\<lambda>g. ((0, 1), (0, 1))) = Inr s0"
    using initial_returns by blast
  let ?evs = "[DownNode ''John'', MouseMoveBody (1, 2), MouseUp, DownNode ''Mary'']"
  have h2: "list_all uuid_event ?evs" by simp
  have h3: "press_when_idle s0 ?evs"
    using s0 by (auto simp: eval_defs)
  from one_highlight_per_drag [OF s0 h2 h3] s0 h2 h3 show ?thesis
    by simp
qed

theorem edges_reference_nodes_witness:
  "(case initial (\<lambda>p. p) (\<lambda>g. ((0, 1), (0, 1))) of
      Inl e \<Rightarrow> False
    | Inr s0 \<Rightarrow>
        edges_ok (graph (run s0 [ClickStage (3, 4) ''0b1e'' ''#a1b2c3'', DownNode ''0b1e'',
          MouseMoveBody (7, 7), MouseUp, ClickStage (0, 0) ''77aa'' ''#000000''])))"
proof -
  obtain s0 where s0: "initial (\<lambda>p. p) (\<lambda>g. ((0, 1), (0, 1))) = Inr s0"
    using initial_returns by blast
  from edges_reference_nodes [OF s0, of _ "[]"] s0 show ?thesis
    by simp
qed

section \<open>A whole drag\<close>

lemma hasNode_nodes_eq: "nodes g' = nodes g \<Longrightarrow> hasNode g' n = hasNode g n"
  by (simp add: hasNode_def)

lemma moves_while_dragging:
  assumes "isDragging s" and "draggedNode s = Some n" and "n \<noteq> []" and "hasNode (graph s) n"
  shows "isDragging (run s (map MouseMoveBody ms)) \<and>
     draggedNode (run s (map MouseMoveBody ms)) = Some n \<and>
     hasNode (graph (run s (map MouseMoveBody ms))) n \<and>
     renderer (run s (map MouseMoveBody ms)) = renderer s \<and>
     (ms \<noteq> [] \<longrightarrow>
        node_attribute (graph (run s (map MouseMoveBody ms))) n ''x'' =
          Some (Num (fst (viewportToGraph (renderer s) (last ms)))) \<and>
        node_attribute (graph (run s (map MouseMoveBody ms))) n ''y'' =
          Some (Num (snd (viewportToGraph (renderer s) (last ms)))))"
proof (induction ms rule: rev_induct)
  case Nil
  from assms show ?case by simp
next
  case (snoc m ms)
  let ?s1 = "run s (map MouseMoveBody ms)"
  let ?s2 = "final (mousemovebody ?s1 m)"
  let ?pos = "viewportToGraph (renderer s) m"
  from snoc have s1: "isDragging ?s1" "draggedNode ?s1 = Some n" "hasNode (graph ?s1) n"
    "renderer ?s1 = renderer s"
    by simp_all
  have run: "run s (map MouseMoveBody (ms @ [m])) = ?s2"
    by (simp add: run_snoc step_def)
  from mousemovebody_effect [of ?s1 m] s1 assms(3)
  obtain g1 where flags: "renderer ?s2 = renderer s" "isDragging ?s2" "draggedNode ?s2 = Some n"
    and g1: "setNodeAttribute (graph ?s1) n ''x'' (Num (fst ?pos)) = Inr g1"
    and g2: "setNodeAttribute g1 n ''y'' (Num (snd ?pos)) = Inr (graph ?s2)"
    by auto
  have "nodes (graph ?s2) = nodes (graph ?s1)"
    using setNodeAttribute_Inr [OF g1] setNodeAttribute_Inr [OF g2] by simp
  with s1(3) have "hasNode (graph ?s2) n"
    by (simp add: hasNode_def)
  moreover have "node_attribute (graph ?s2) n ''x'' = Some (Num (fst ?pos))"
    "node_attribute (graph ?s2) n ''y'' = Some (Num (snd ?pos))"
    by (simp_all add: node_attribute_set [OF g1] node_attribute_set [OF g2])
  ultimately show ?case
    using flags unfolding run by simp
qed

lemma drag_sequence:
  assumes "hasNode (graph s) n" and "n \<noteq> []"
  shows "node_attribute (graph (run s (drag n ms))) n ''highlighted'' = None \<and>
     \<not> isDragging (run s (drag n ms)) \<and> draggedNode (run s (drag n ms)) = None \<and>
     (ms \<noteq> [] \<longrightarrow>
        node_attribute (graph (run s (drag n ms))) n ''x'' =
          Some (Num (fst (viewportToGraph (renderer s) (last ms)))) \<and>
        node_attribute (graph (run s (drag n ms))) n ''y'' =
          Some (Num (snd (viewportToGraph (renderer s) (last ms)))))"
proof -
  let ?s1 = "final (downNode s n)"
  let ?s2 = "run ?s1 (map MouseMoveBody ms)"
  let ?s3 = "final (mouseup ?s2)"
  have run: "run s (drag n ms) = ?s3"
    by (simp add: drag_def run_Cons run_append step_def)
  from downNode_effect [of s n] assms(1)
  have s1: "isDragging ?s1" "draggedNode ?s1 = Some n" "renderer ?s1 = renderer s"
    and g1: "setNodeAttribute (graph s) n ''highlighted'' (Bool True) = Inr (graph ?s1)"
    by simp_all
  from setNodeAttribute_Inr [OF g1] assms(1) have "hasNode (graph ?s1) n"
    by (simp add: hasNode_def)
  note s2 = moves_while_dragging [OF s1(1,2) assms(2) this, of ms]
  from mouseup_effect [of ?s2] s2 assms(2)
  have r: "removeNodeAttribute (graph ?s2) n ''highlighted'' = Inr (graph ?s3)"
    and flags: "\<not> isDragging ?s3" "draggedNode ?s3 = None"
    by auto
  have attr: "node_attribute (graph ?s3) n name =
      (if name = ''highlighted'' then None else node_attribute (graph ?s2) n name)" for name
    by (simp add: node_attribute_remove [OF r])
  show ?thesis
    unfolding run using s2 s1(3) flags by (simp add: attr)
qed

lemma nonempty_keys_run:
  "[] \<notin> set (nodes (graph s)) \<Longrightarrow> list_all uuid_event evs \<Longrightarrow>
     [] \<notin> set (nodes (graph (run s evs)))"
proof (induction evs arbitrary: s)
  case Nil
  then show ?case by simp
next
  case (Cons ev evs)
  from nodes_step [of s ev] Cons.prems have "[] \<notin> set (nodes (graph (step s ev)))"
    by auto
  with Cons show ?case by (simp add: run_Cons)
qed

lemma nonempty_keys_initial: "initial vtg gbb = Inr s0 \<Longrightarrow> [] \<notin> set (nodes (graph s0))"
  by (auto simp: initial_def seed_graph_eq nodes_def)

lemma viewportToGraph_run: "viewportToGraph (renderer (run s evs)) = viewportToGraph (renderer s)"
  by (induction evs arbitrary: s) (simp_all add: run_Cons renderer_step setCustomBBox_def)

text \<open>
  Claim C1. Let the page be in a state it reaches from the seed (the identifiers from
  \<open>uuid()\<close> being non-empty) and let \<open>n\<close> be a node of its store. After a press on \<open>n\<close>,
  any number of pointer moves and a release, \<open>n\<close> has no \<open>highlighted\<close> attribute; and if
  there was at least one move, the \<open>x\<close> and \<open>y\<close> of \<open>n\<close> are the coordinates that
  \<open>viewportToGraph\<close> gives for the last move.
\<close>

theorem drag_moves_node:
  assumes "initial vtg gbb = Inr s0" and "list_all uuid_event evs"
    and "hasNode (graph (run s0 evs)) n"
  shows "node_attribute (graph (run s0 (evs @ drag n ms))) n ''highlighted'' = None \<and>
     (ms \<noteq> [] \<longrightarrow>
        node_attribute (graph (run s0 (evs @ drag n ms))) n ''x'' =
          Some (Num (fst (vtg (last ms)))) \<and>
        node_attribute (graph (run s0 (evs @ drag n ms))) n ''y'' =
          Some (Num (snd (vtg (last ms)))))"
proof -
  have "[] \<notin> set (nodes (graph (run s0 evs)))"
    using assms(1,2) by (intro nonempty_keys_run nonempty_keys_initial)
  with assms(3) have n: "n \<noteq> []"
    by (auto simp: hasNode_def)
  have "viewportToGraph (renderer (run s0 evs)) = vtg"
    using initial_renderer [OF assms(1)] by (simp add: viewportToGraph_run Sigma_def)
  with drag_sequence [OF assms(3) n, of ms] show ?thesis
    by (simp add: run_append)
qed

theorem drag_moves_node_witness:
  "(case initial (\<lambda>p. (fst p - 400, 300 - snd p)) (\<lambda>g. ((0, 1), (0, 1))) of
      Inl e \<Rightarrow> False
    | Inr s0 \<Rightarrow>
        list_all uuid_event [MouseDown, ClickStage (10, 10) ''c0de'' ''#123456''] \<and>
        hasNode (graph (run s0 [MouseDown, ClickStage (10, 10) ''c0de'' ''#123456''])) ''Mary'' \<and>
        node_attribute (graph (run s0 ([MouseDown, ClickStage (10, 10) ''c0de'' ''#123456''] @
          drag ''Mary'' [(410, 290), (420, 280)]))) ''Mary'' ''highlighted'' = None \<and>
        node_attribute (graph (run s0 ([MouseDown, ClickStage (10, 10) ''c0de'' ''#123456''] @
          drag ''Mary'' [(410, 290), (420, 280)]))) ''Mary'' ''x'' = Some (Num 20) \<and>
        node_attribute (graph (run s0 ([MouseDown, ClickStage (10, 10) ''c0de'' ''#123456''] @
          drag ''Mary'' [(410, 290), (420, 280)]))) ''Mary'' ''y'' = Some (Num 20))"
proof -
  let ?vtg = "\<lambda>p :: point. (fst p - 400, 300 - snd p)"
  let ?evs = "[MouseDown, ClickStage (10, 10) ''c0de'' ''#123456'']"
  obtain s0 where s0: "initial ?vtg (\<lambda>g. ((0, 1), (0, 1))) = Inr s0"
    using initial_returns by blast
  have h2: "list_all uuid_event ?evs" by simp
  have "''Mary'' \<in> set (nodes (graph s0))"
    using s0 by (auto simp: initial_def seed_graph_eq nodes_def)
  moreover have "set (nodes (graph s0)) \<subseteq> set (nodes (graph (run s0 ?evs)))"
    using nodes_step [of s0 MouseDown]
      nodes_step [of "step s0 MouseDown" "ClickStage (10, 10) ''c0de'' ''#123456''"]
    by (auto simp: run_Cons)
  ultimately have h3: "hasNode (graph (run s0 ?evs)) ''Mary''"
    by (auto simp: hasNode_def)
  from drag_moves_node [OF s0 h2 h3, of "[(410, 290), (420, 280)]"] s0 h2 h3
  show ?thesis by simp
qed

section \<open>Facts about rounding\<close>

lemma quantum_pos: "0 < quantum v"
  by (simp add: quantum_def)

lemma round_even_of_int [simp]: "round_even (of_int k) = k"
  by (simp add: round_even_def)




lemma two_powr_int: "0 \<le> n \<Longrightarrow> (2::real) powr of_int n = of_int (2 ^ nat n)"
  by (simp add: powr_real_of_int)








lemma round_double_dyadic:
  assumes "\<bar>m\<bar> < 2 ^ 53" and "e \<le> 971"
  shows "round_double (of_int m * 2 ^ e) = Finite (of_int m * 2 ^ e)"
proof (cases "m = 0")
  case True
  then show ?thesis by (simp add: round_double_def)
next
  case False
  let ?v = "of_int m * 2 ^ e :: real"
  let ?E = "\<lfloor>log 2 \<bar>?v\<bar>\<rfloor>"
  have abs: "\<bar>?v\<bar> = of_int \<bar>m\<bar> * 2 ^ e"
    by (simp add: abs_mult)
  from False have "1 \<le> \<bar>m\<bar>" by linarith
  then have m1: "1 \<le> (of_int \<bar>m\<bar> :: real)"
    by (simp only: of_int_1_le_iff)
  from assms(1) have m2: "(of_int \<bar>m\<bar> :: real) < 2 ^ 53"
    by (simp only: of_int_less_numeral_power_cancel_iff)
  have pos: "0 < \<bar>?v\<bar>"
    using False by simp
  have lo: "2 powr of_int (int e) \<le> \<bar>?v\<bar>"
    using m1 by (simp add: abs powr_realpow)
  have hi: "\<bar>?v\<bar> < 2 powr of_int (int e + 53)"
  proof -
    have "\<bar>?v\<bar> < 2 ^ 53 * 2 ^ e"
      unfolding abs using m2 by simp
    also have "\<dots> = 2 powr of_int (int e + 53)"
      by (simp add: powr_add powr_realpow)
    finally show ?thesis .
  qed
  have E: "2 powr of_int ?E \<le> \<bar>?v\<bar>" "\<bar>?v\<bar> < 2 powr of_int (?E + 1)"
    using pos floor_log_eq_powr_iff [of "\<bar>?v\<bar>" 2 ?E] by simp_all
  from lo E(2) have "2 powr of_int (int e) < (2::real) powr of_int (?E + 1)"
    by linarith
  then have e1: "int e \<le> ?E"
    by simp
  from hi E(1) have "2 powr of_int ?E < (2::real) powr of_int (int e + 53)"
    by linarith
  then have e2: "?E \<le> int e + 52"
    by simp
  from e1 have "max ?E (- 1022) = ?E" by simp
  then have q: "quantum ?v = 2 powr of_int (?E - 52)"
    unfolding quantum_def by simp
  let ?d = "int e + 52 - ?E"
  have d: "0 \<le> ?d" using e2 by simp
  have "?v / quantum ?v = of_int m * (2 powr of_int (int e) / 2 powr of_int (?E - 52))"
    unfolding q by (simp add: powr_realpow)
  also have "2 powr of_int (int e) / 2 powr of_int (?E - 52) = (2::real) powr of_int ?d"
    by (simp add: powr_diff [symmetric] algebra_simps)
  also have "\<dots> = of_int (2 ^ nat ?d)"
    using d by (rule two_powr_int)
  finally have ratio: "?v / quantum ?v = of_int (m * 2 ^ nat ?d)"
    by simp
  have "quantum ?v * of_int (round_even (?v / quantum ?v)) = quantum ?v * (?v / quantum ?v)"
    unfolding ratio by (simp only: round_even_of_int)
  also have "\<dots> = ?v"
    using quantum_pos [of ?v] by simp
  finally have r: "quantum ?v * of_int (round_even (?v / quantum ?v)) = ?v" .
  have "\<bar>?v\<bar> < 2 ^ 53 * 2 ^ 971"
  proof -
    have "\<bar>?v\<bar> < 2 ^ 53 * 2 ^ e"
      unfolding abs using m2 by simp
    also have "\<dots> \<le> 2 ^ 53 * 2 ^ 971"
    proof (rule mult_left_mono)
      show "(2::real) ^ e \<le> 2 ^ 971"
        using assms(2) by (intro power_increasing) simp_all
    qed simp
    finally show ?thesis .
  qed
  moreover have "(2::real) ^ 53 * 2 ^ 971 = 2 ^ (53 + 971)"
    by (rule power_add [symmetric])
  ultimately have bound: "\<bar>?v\<bar> < 2 ^ 1024"
    by simp
  from bound have b: "\<not> 2 ^ 1024 \<le> ?v" "\<not> ?v \<le> - (2 ^ 1024)"
    unfolding abs_less_iff by linarith+
  have "?v \<noteq> 0" using False by simp
  then show ?thesis
    unfolding round_double_def Let_def r using b by (simp only: if_False)
qed

lemma round_double_of_int: "\<bar>m\<bar> < 2 ^ 53 \<Longrightarrow> round_double (of_int m) = Finite (of_int m)"
  using round_double_dyadic [of m 0] by simp

lemma round_double_numeral [simp]:
  "numeral k < (2 ^ 53 :: int) \<Longrightarrow> round_double (numeral k) = Finite (numeral k)"
  using round_double_of_int [of "numeral k"] by simp

lemma round_double_neg_numeral [simp]:
  "numeral k < (2 ^ 53 :: int) \<Longrightarrow> round_double (- numeral k) = Finite (- numeral k)"
  using round_double_of_int [of "- numeral k"] by simp

lemma round_double_0 [simp]: "round_double 0 = Finite 0"
  by (simp add: round_double_def)

lemma round_double_1 [simp]: "round_double 1 = Finite 1"
  using round_double_of_int [of 1] by simp

lemma round_double_not_NaN [simp]: "round_double v \<noteq> NaN"
  by (simp add: round_double_def Let_def)

section \<open>The nearest two\<close>










lemma positions_iff:
  "(\<exists>ps. positions g = Some ps) = (\<forall>entry \<in> set (node_entries g). entry_position entry \<noteq> None)"
proof -
  have "(\<exists>ys. those (map f xs) = Some ys) = (\<forall>x \<in> set xs. f x \<noteq> None)"
    for f :: "string \<times> attributes \<Rightarrow> (string \<times> point) option" and xs
    by (induction xs) (auto split: option.splits)
  then show ?thesis by (simp add: positions_def)
qed

lemma entry_position_update:
  "entry_position entry \<noteq> None \<Longrightarrow>
   (\<forall>attrs. num_attr attrs ''x'' \<noteq> None \<longrightarrow> num_attr (f attrs) ''x'' \<noteq> None) \<Longrightarrow>
   (\<forall>attrs. num_attr attrs ''y'' \<noteq> None \<longrightarrow> num_attr (f attrs) ''y'' \<noteq> None) \<Longrightarrow>
   entry_position (update_entry n f entry) \<noteq> None"
  by (auto simp: entry_position_def update_entry_def split: option.splits)

lemma positions_update:
  assumes "\<exists>ps. positions g = Some ps"
    and "node_entries g' = map (update_entry n f) (node_entries g)"
    and "\<forall>attrs. num_attr attrs ''x'' \<noteq> None \<longrightarrow> num_attr (f attrs) ''x'' \<noteq> None"
    and "\<forall>attrs. num_attr attrs ''y'' \<noteq> None \<longrightarrow> num_attr (f attrs) ''y'' \<noteq> None"
  shows "\<exists>ps. positions g' = Some ps"
proof -
  have "entry_position e' \<noteq> None" if "e' \<in> set (node_entries g')" for e'
  proof -
    from that assms(2) obtain entry where entry: "entry \<in> set (node_entries g)"
      "e' = update_entry n f entry"
      by auto
    with assms(1) have "entry_position entry \<noteq> None"
      unfolding positions_iff by blast
    then show ?thesis
      unfolding entry(2) using assms(3,4) by (rule entry_position_update)
  qed
  then show ?thesis
    unfolding positions_iff by blast
qed

lemma positions_setNodeAttribute:
  assumes "setNodeAttribute g n name (Num r) = Inr g'" and "\<exists>ps. positions g = Some ps"
  shows "\<exists>ps. positions g' = Some ps"
  using assms(2)
proof (rule positions_update)
  show "node_entries g' = map (update_entry n (\<lambda>attrs. attrs(name \<mapsto> Num r))) (node_entries g)"
    using setNodeAttribute_Inr [OF assms(1)] by simp
qed (simp_all add: num_attr_def)

lemma positions_highlight:
  assumes "setNodeAttribute g n ''highlighted'' v = Inr g'" and "\<exists>ps. positions g = Some ps"
  shows "\<exists>ps. positions g' = Some ps"
  using assms(2)
proof (rule positions_update)
  show "node_entries g' = map (update_entry n (\<lambda>attrs. attrs(''highlighted'' \<mapsto> v))) (node_entries g)"
    using setNodeAttribute_Inr [OF assms(1)] by simp
qed (simp_all add: num_attr_def)

lemma positions_unhighlight:
  assumes "removeNodeAttribute g n ''highlighted'' = Inr g'" and "\<exists>ps. positions g = Some ps"
  shows "\<exists>ps. positions g' = Some ps"
  using assms(2)
proof (rule positions_update)
  show "node_entries g' = map (update_entry n (\<lambda>attrs. attrs(''highlighted'' := None))) (node_entries g)"
    using removeNodeAttribute_Inr [OF assms(1)] by simp
qed (simp_all add: num_attr_def)

lemma positions_step:
  assumes "\<exists>ps. positions (graph s) = Some ps"
  shows "\<exists>ps. positions (graph (step s ev)) = Some ps"
proof (cases ev)
  case (DownNode n)
  with downNode_effect [of s n] assms show ?thesis
    by (auto simp: step_def dest: positions_highlight split: if_splits)
next
  case (MouseMoveBody e)
  show ?thesis
  proof (cases "graph (final (mousemovebody s e)) = graph s")
    case True
    with assms MouseMoveBody show ?thesis by (simp add: step_def)
  next
    case False
    with mousemovebody_effect [of s e] obtain n g1 where
      "setNodeAttribute (graph s) n ''x'' (Num (fst (viewportToGraph (renderer s) e))) = Inr g1"
      "setNodeAttribute g1 n ''y'' (Num (snd (viewportToGraph (renderer s) e))) =
         Inr (graph (final (mousemovebody s e)))"
      by (auto split: if_splits)
    with assms MouseMoveBody show ?thesis
      by (auto simp: step_def dest!: positions_setNodeAttribute)
  qed
next
  case MouseUp
  with mouseup_effect [of s] assms show ?thesis
    by (auto simp: step_def dest: positions_unhighlight split: if_splits)
next
  case MouseDown
  with mousedown_effect [of s] assms show ?thesis by (simp add: step_def)
next
  case (ClickStage e ident colour)
  let ?s' = "final (clickStage s e ident colour)"
  have new: "entry_position (ident, new_node p colour) \<noteq> None" for p
    by (simp add: entry_position_def new_node_def num_attr_def)
  from clickStage_effect [of s e ident colour]
  consider "graph ?s' = graph s"
    | "node_entries (graph ?s') = node_entries (graph s) @
         [(ident, new_node (viewportToGraph (renderer s) e) colour)]"
    by blast
  then have "\<exists>ps. positions (graph ?s') = Some ps"
  proof cases
    case 1
    with assms show ?thesis by simp
  next
    case 2
    have "entry_position e' \<noteq> None" if "e' \<in> set (node_entries (graph ?s'))" for e'
    proof (cases "e' \<in> set (node_entries (graph s))")
      case True
      with assms show ?thesis unfolding positions_iff by blast
    next
      case False
      with that 2 have "e' = (ident, new_node (viewportToGraph (renderer s) e) colour)"
        by simp
      then show ?thesis by (simp only: new not_False_eq_True)
    qed
    then show ?thesis unfolding positions_iff by blast
  qed
  with ClickStage show ?thesis by (simp add: step_def)
qed

lemma positions_run:
  "\<exists>ps. positions (graph s) = Some ps \<Longrightarrow> \<exists>ps. positions (graph (run s evs)) = Some ps"
  by (induction evs arbitrary: s) (simp_all add: run_Cons positions_step)

lemma positions_initial: "initial vtg gbb = Inr s0 \<Longrightarrow> \<exists>ps. positions (graph s0) = Some ps"
  unfolding positions_iff
  by (auto simp: initial_def seed_graph_eq entry_position_def num_attr_def)











end
